theory Spec2Isabelle
  imports Main "HOL-Library.Word" "HOL-Library.Multiset"
begin

unbundle bit_operations_syntax

section \<open>Data model\<close>

text \<open>
  Modelled from the spec: the hash key type \<^verbatim>\<open>uintNN_t\<close> (declared in \<^verbatim>\<open>NodeArray.h\<close>) is
  a fixed-width unsigned integer of 32 or 64 bits, a build-time choice. \<^verbatim>\<open>Dictionary.h\<close> has
  \<^verbatim>\<open>_DICT_CRC64_\<close> commented out and so compiles the 32-bit hash.
\<close>

type_synonym uintNN_t = "32 word"

text \<open>
  A \<^verbatim>\<open>String\<close> is modelled as the list of its bytes (\<^verbatim>\<open>length()\<close> many), and \<^verbatim>\<open>==\<close> on
  strings as equality of these lists.
\<close>

text \<open>
  Modelled from the spec: a \<^verbatim>\<open>node*\<close>, for the \<^verbatim>\<open>struct node\<close> declared in \<^verbatim>\<open>NodeArray.h\<close> with the
  fields \<^verbatim>\<open>key\<close>, \<^verbatim>\<open>keystr\<close>, \<^verbatim>\<open>valstr\<close>, \<^verbatim>\<open>left\<close> and \<^verbatim>\<open>right\<close> that \<^verbatim>\<open>Dictionary.h\<close> reads and
  writes. The tree is built from exclusively owned pointers (every node is reached
  through exactly one \<^verbatim>\<open>left\<close>/\<^verbatim>\<open>right\<close> field or through \<^verbatim>\<open>iRoot\<close>), so a pointer
  is modelled together with the object it owns: \<open>Null\<close> is the null pointer, and
  \<open>Node a k ks vs l r\<close> is the pointer with address \<open>a\<close> to a node whose fields are
  \<^verbatim>\<open>key = k\<close>, \<^verbatim>\<open>keystr = ks\<close>, \<^verbatim>\<open>valstr = vs\<close>, \<^verbatim>\<open>left = l\<close>, \<^verbatim>\<open>right = r\<close>.
  The address is what the index array stores and what \<^verbatim>\<open>Q->remove\<close> compares.
\<close>

type_synonym addr = nat

datatype node = Null
  | Node (address: addr) (key: uintNN_t) (keystr: string) (valstr: string) (left: node) (right: node)

text \<open>
  Modelled from the spec: \<^verbatim>\<open>NodeArray\<close> (file \<^verbatim>\<open>NodeArray.h\<close>) is the spec's IndexArray, an
  ordered sequence of references to nodes in creation order. Its capacity is not observable
  through its interface, so only the sequence is kept.
\<close>

type_synonym NodeArray = "addr list"

text \<open>Modelled from the spec: the constructor \<^verbatim>\<open>NodeArray(init_size)\<close> yields an array with no entry.\<close>

definition NodeArray_new :: "nat \<Rightarrow> NodeArray" where
  "NodeArray_new init_size = []"

text \<open>Modelled from the spec: \<^verbatim>\<open>append(ref)\<close> adds a node reference at the end.\<close>

definition NodeArray_append :: "NodeArray \<Rightarrow> addr \<Rightarrow> NodeArray" where
  "NodeArray_append q p = q @ [p]"

text \<open>Modelled from the spec: \<^verbatim>\<open>remove(ref)\<close> removes the specific reference if present
  and does nothing if it is absent.\<close>

definition NodeArray_remove :: "NodeArray \<Rightarrow> addr \<Rightarrow> NodeArray" where
  "NodeArray_remove q p = remove1 p q"

text \<open>Modelled from the spec: \<^verbatim>\<open>operator[](i)\<close> returns the \<open>i\<close>-th reference, and the null
  pointer (\<open>None\<close>) if \<open>i\<close> is out of bounds.\<close>

definition NodeArray_get :: "NodeArray \<Rightarrow> nat \<Rightarrow> addr option" where
  "NodeArray_get q i = (if i < length q then Some (q ! i) else None)"

text \<open>Modelled from the spec: \<^verbatim>\<open>count()\<close> is the number of references held.\<close>

definition NodeArray_count :: "NodeArray \<Rightarrow> nat" where
  "NodeArray_count q = length q"

text \<open>
  The object state. \<open>iRoot\<close>, \<open>Q\<close> and \<open>initSize\<close> are the fields of the class. The field
  \<^verbatim>\<open>table\<close> is written by the constructor only and is the constant \<open>table\<close> below.
  Two components stand for the allocator: \<open>nxt\<close> is the address the next \<^verbatim>\<open>new node\<close>
  returns (addresses are never handed out twice, and \<^verbatim>\<open>new\<close> is taken to succeed), and
  \<open>freed\<close> collects the addresses released by \<^verbatim>\<open>delete\<close>. No operation reads \<open>freed\<close>: a
  pointer to a released node still shows the node as it was when it was released, and
  an operation that follows such a pointer is undefined in the source.
\<close>

record dictionary =
  iRoot :: node
  Q :: NodeArray
  initSize :: nat
  nxt :: addr
  freed :: "addr set"

section \<open>The hash\<close>

text \<open>One round of the inner loop of the constructor:
  \<^verbatim>\<open>r = (r & 1 ? 0 : (uintNN_t)0xEDB88320L) ^ r >> 1\<close>.\<close>

definition table_round :: "uintNN_t \<Rightarrow> uintNN_t" where
  "table_round r = (if r AND 1 \<noteq> 0 then 0 else 0xEDB88320) XOR drop_bit 1 r"

text \<open>The loop \<^verbatim>\<open>for (int j = 0; j < 8; ++j)\<close>.\<close>

function table_loop :: "nat \<Rightarrow> uintNN_t \<Rightarrow> uintNN_t" where
  "table_loop j r = (if j < 8 then table_loop (j + 1) (table_round r) else r)"
  by pat_completeness auto
termination
  by (relation "measure (\<lambda>(j, r). 8 - j)") auto

declare table_loop.simps [simp del]

text \<open>\<^verbatim>\<open>table[i] = r ^ (uintNN_t)0xFF000000L\<close>, for the index \<open>i\<close> of a byte.\<close>

definition table :: "8 word \<Rightarrow> uintNN_t" where
  "table i = table_loop 0 (ucast i) XOR 0xFF000000"

text \<open>One round of \<^verbatim>\<open>crc\<close>: \<^verbatim>\<open>crc = table[(uint8_t)crc ^ data[i]] ^ crc >> 8\<close>.\<close>

definition crc_round :: "uintNN_t \<Rightarrow> char \<Rightarrow> uintNN_t" where
  "crc_round c b = table (ucast c XOR of_char b) XOR drop_bit 8 c"

text \<open>The loop of \<^verbatim>\<open>crc\<close> over the bytes of the string, from the accumulator \<open>c\<close>.\<close>

fun crc_loop :: "uintNN_t \<Rightarrow> string \<Rightarrow> uintNN_t" where
  "crc_loop c [] = c"
| "crc_loop c (b # bs) = crc_loop (crc_round c b) bs"

definition crc :: "string \<Rightarrow> uintNN_t" where
  "crc data = crc_loop 0 data"

section \<open>The tree engine\<close>

text \<open>
  The constructor \<^verbatim>\<open>Dictionary(init_size)\<close>: a null root and a new index array. The
  allocator has handed out no address and released none.
\<close>

definition Dictionary :: "nat \<Rightarrow> dictionary" where
  "Dictionary init_size =
     \<lparr>iRoot = Null, Q = NodeArray_new init_size, initSize = init_size, nxt = 0, freed = {}\<rparr>"

text \<open>
  The statement sequence that \<^verbatim>\<open>insert\<close> repeats at each of its four creation sites:
  \<^verbatim>\<open>p = new node; p->key = key; p->keystr = *keystr; p->valstr = *valstr;
  p->left = NULL; p->right = NULL; Q->append(p)\<close>.
\<close>

definition new_node :: "uintNN_t \<Rightarrow> string \<Rightarrow> string \<Rightarrow> dictionary \<Rightarrow> node \<times> dictionary" where
  "new_node k ks vs d =
     (Node (nxt d) k ks vs Null Null,
      d\<lparr>Q := NodeArray_append (Q d) (nxt d), nxt := Suc (nxt d)\<rparr>)"

text \<open>
  The private \<^verbatim>\<open>insert(key, keystr, valstr, leaf)\<close>. It updates the node \<^verbatim>\<open>*leaf\<close> in
  place; the model returns the updated node together with the updated object state. The
  source dereferences \<^verbatim>\<open>leaf\<close> at once and every caller tests the pointer before the
  call, so there is no equation for \<open>Null\<close>.
\<close>

fun insert_node :: "uintNN_t \<Rightarrow> string \<Rightarrow> string \<Rightarrow> node \<Rightarrow> dictionary \<Rightarrow> node \<times> dictionary" where
  "insert_node k ks vs (Node a lk lks lvs l r) d =
     (if k < lk then
        (if l \<noteq> Null then
           (case insert_node k ks vs l d of (l', d') \<Rightarrow> (Node a lk lks lvs l' r, d'))
         else
           (case new_node k ks vs d of (n, d') \<Rightarrow> (Node a lk lks lvs n r, d')))
      else if k > lk then
        (if r \<noteq> Null then
           (case insert_node k ks vs r d of (r', d') \<Rightarrow> (Node a lk lks lvs l r', d'))
         else
           (case new_node k ks vs d of (n, d') \<Rightarrow> (Node a lk lks lvs l n, d')))
      else if k = lk then
        (if lks = ks then (Node a lk lks vs l r, d)
         else
           (if r \<noteq> Null then
              (case insert_node k ks vs r d of (r', d') \<Rightarrow> (Node a lk lks lvs l r', d'))
            else
              (case new_node k ks vs d of (n, d') \<Rightarrow> (Node a lk lks lvs l n, d'))))
      else (Node a lk lks lvs l r, d))"

text \<open>The private \<^verbatim>\<open>search(key, leaf, keystr)\<close>; the result is the node found or \<open>Null\<close>.\<close>

fun search_node :: "uintNN_t \<Rightarrow> node \<Rightarrow> string \<Rightarrow> node" where
  "search_node k Null ks = Null"
| "search_node k (Node a lk lks lvs l r) ks =
     (if k = lk \<and> lks = ks then Node a lk lks lvs l r
      else if k < lk then search_node k l ks
      else search_node k r ks)"

text \<open>\<^verbatim>\<open>minValueNode\<close>: the loop \<^verbatim>\<open>while (current && current->left != NULL)\<close>.\<close>

fun minValueNode :: "node \<Rightarrow> node" where
  "minValueNode Null = Null"
| "minValueNode (Node a k ks vs l r) =
     (if l \<noteq> Null then minValueNode l else Node a k ks vs l r)"

text \<open>\<^verbatim>\<open>Q->remove(root); delete root;\<close> for the node at address \<open>a\<close>.\<close>

definition release :: "addr \<Rightarrow> dictionary \<Rightarrow> dictionary" where
  "release a d = d\<lparr>Q := NodeArray_remove (Q d) a, freed := insert a (freed d)\<rparr>"

text \<open>
  \<^verbatim>\<open>deleteNode(root, key, keystr)\<close>; the result is the new root of the subtree. In the
  two-children case the source passes \<^verbatim>\<open>&temp->keystr\<close>, a pointer into the successor
  node. That node is not written before it is released, and after its release the callee
  returns without reading the string, so the call is modelled with the string's value.
\<close>

fun deleteNode :: "node \<Rightarrow> uintNN_t \<Rightarrow> string \<Rightarrow> dictionary \<Rightarrow> node \<times> dictionary" where
  "deleteNode Null k ks d = (Null, d)"
| "deleteNode (Node a rk rks rvs l r) k ks d =
     (if k < rk then
        (case deleteNode l k ks d of (l', d') \<Rightarrow> (Node a rk rks rvs l' r, d'))
      else if k > rk then
        (case deleteNode r k ks d of (r', d') \<Rightarrow> (Node a rk rks rvs l r', d'))
      else
        (if rks = ks then
           (if l = Null then (r, release a d)
            else if r = Null then (l, release a d)
            else
              (let temp = minValueNode r in
               case deleteNode r (key temp) (keystr temp) d of
                 (r', d') \<Rightarrow> (Node a (key temp) (keystr temp) (valstr temp) l r', d')))
         else
           (case deleteNode r k ks d of (r', d') \<Rightarrow> (Node a rk rks rvs l r', d'))))"

text \<open>\<^verbatim>\<open>destroy_tree\<close> releases every node of the subtree, children first; it writes no
  pointer.\<close>

fun destroy_tree :: "node \<Rightarrow> addr set \<Rightarrow> addr set" where
  "destroy_tree Null F = F"
| "destroy_tree (Node a k ks vs l r) F = insert a (destroy_tree r (destroy_tree l F))"

section \<open>The public operations\<close>

text \<open>\<^verbatim>\<open>insert(keystr, valstr)\<close>.\<close>

definition insert_dict :: "dictionary \<Rightarrow> string \<Rightarrow> string \<Rightarrow> dictionary" where
  "insert_dict d ks vs =
     (let k = crc ks in
      if iRoot d \<noteq> Null then
        (case insert_node k ks vs (iRoot d) d of (rt, d') \<Rightarrow> d'\<lparr>iRoot := rt\<rparr>)
      else
        (case new_node k ks vs d of (n, d') \<Rightarrow> d'\<lparr>iRoot := n\<rparr>))"

text \<open>\<^verbatim>\<open>remove(keystr)\<close>.\<close>

definition remove_dict :: "dictionary \<Rightarrow> string \<Rightarrow> dictionary" where
  "remove_dict d ks =
     (let p = search_node (crc ks) (iRoot d) ks in
      if p \<noteq> Null then
        (case deleteNode (iRoot d) (key p) ks d of (rt, d') \<Rightarrow> d'\<lparr>iRoot := rt\<rparr>)
      else d)"

text \<open>
  \<^verbatim>\<open>destroy()\<close>: \<^verbatim>\<open>destroy_tree(iRoot); delete Q; Q = new NodeArray(initSize);\<close>. There is
  no assignment to \<^verbatim>\<open>iRoot\<close>.
\<close>

definition destroy :: "dictionary \<Rightarrow> dictionary" where
  "destroy d = d\<lparr>freed := destroy_tree (iRoot d) (freed d), Q := NodeArray_new (initSize d)\<rparr>"

section \<open>The observers\<close>

text \<open>
  The observers are methods of a mutable object (none of them is declared \<^verbatim>\<open>const\<close> on
  the object), so each is modelled as a call that returns its result together with the
  object state after the call. The result \<open>None\<close> of a positional read stands for a
  read through a dangling pointer.
\<close>

text \<open>\<^verbatim>\<open>search(keystr)\<close>, also \<^verbatim>\<open>operator[](String)\<close>.\<close>

definition search_call :: "dictionary \<Rightarrow> string \<Rightarrow> string \<times> dictionary" where
  "search_call d ks =
     (let p = search_node (crc ks) (iRoot d) ks in
      if p \<noteq> Null then (valstr p, d) else ('''', d))"

text \<open>\<^verbatim>\<open>operator()(String)\<close>: whether the key is stored.\<close>

definition contains_call :: "dictionary \<Rightarrow> string \<Rightarrow> bool \<times> dictionary" where
  "contains_call d ks =
     (let p = search_node (crc ks) (iRoot d) ks in
      if p \<noteq> Null then (True, d) else (False, d))"

text \<open>\<^verbatim>\<open>count()\<close>.\<close>

definition count_call :: "dictionary \<Rightarrow> nat \<times> dictionary" where
  "count_call d = (NodeArray_count (Q d), d)"

text \<open>
  The node that a pointer stored in \<open>Q\<close> designates: the node of the tree with that
  address, \<open>Null\<close> when the tree has none (the pointer dangles).
\<close>

fun node_at :: "node \<Rightarrow> addr \<Rightarrow> node" where
  "node_at Null p = Null"
| "node_at (Node a k ks vs l r) p =
     (if a = p then Node a k ks vs l r
      else if node_at l p \<noteq> Null then node_at l p
      else node_at r p)"

text \<open>\<^verbatim>\<open>key(i)\<close>, also \<^verbatim>\<open>operator()(unsigned)\<close>.\<close>

definition key_call :: "dictionary \<Rightarrow> nat \<Rightarrow> string option \<times> dictionary" where
  "key_call d i =
     (case NodeArray_get (Q d) i of
        None \<Rightarrow> (Some '''', d)
      | Some p \<Rightarrow>
          (case node_at (iRoot d) p of
             Null \<Rightarrow> (None, d)
           | Node a k ks vs l r \<Rightarrow> (Some ks, d)))"

text \<open>\<^verbatim>\<open>value(i)\<close>, also \<^verbatim>\<open>operator[](unsigned)\<close>.\<close>

definition value_call :: "dictionary \<Rightarrow> nat \<Rightarrow> string option \<times> dictionary" where
  "value_call d i =
     (case NodeArray_get (Q d) i of
        None \<Rightarrow> (Some '''', d)
      | Some p \<Rightarrow>
          (case node_at (iRoot d) p of
             Null \<Rightarrow> (None, d)
           | Node a k ks vs l r \<Rightarrow> (Some vs, d)))"

text \<open>The loop of \<^verbatim>\<open>size()\<close>, from index \<open>i\<close> with the sum \<open>sz\<close> so far.\<close>

function size_loop :: "dictionary \<Rightarrow> nat \<Rightarrow> nat \<Rightarrow> nat \<Rightarrow> nat option \<times> dictionary" where
  "size_loop d ct i sz =
     (if i < ct then
        (case key_call d i of
           (None, d1) \<Rightarrow> (None, d1)
         | (Some ks, d1) \<Rightarrow>
             (case value_call d1 i of
                (None, d2) \<Rightarrow> (None, d2)
              | (Some vs, d2) \<Rightarrow> size_loop d2 ct (i + 1) (sz + length ks + length vs + 2)))
      else (Some sz, d))"
  by pat_completeness auto
termination
  by (relation "measure (\<lambda>(d, ct, i, sz). ct - i)") auto

declare size_loop.simps [simp del]

text \<open>\<^verbatim>\<open>size()\<close>. The sum is a \<^verbatim>\<open>size_t\<close>; it is bounded by the storage the strings
  occupy, so it is modelled without wrap-around.\<close>

definition size_call :: "dictionary \<Rightarrow> nat option \<times> dictionary" where
  "size_call d = (case count_call d of (ct, d1) \<Rightarrow> size_loop d1 ct 0 0)"

text \<open>The loop of \<^verbatim>\<open>operator==\<close>; the states of both objects are passed along.\<close>

function equals_loop ::
  "dictionary \<Rightarrow> dictionary \<Rightarrow> nat \<Rightarrow> nat \<Rightarrow> bool option \<times> dictionary \<times> dictionary" where
  "equals_loop d b ct i =
     (if i < ct then
        (case value_call d i of
           (None, d1) \<Rightarrow> (None, d1, b)
         | (Some vs, d1) \<Rightarrow>
             (case key_call d1 i of
                (None, d2) \<Rightarrow> (None, d2, b)
              | (Some ks, d2) \<Rightarrow>
                  (case search_call b ks of
                     (bv, b1) \<Rightarrow>
                       if vs \<noteq> bv then (Some False, d2, b1)
                       else equals_loop d2 b1 ct (i + 1))))
      else (Some True, d, b))"
  by pat_completeness auto
termination
  by (relation "measure (\<lambda>(d, b, ct, i). ct - i)") auto

declare equals_loop.simps [simp del]

text \<open>\<^verbatim>\<open>operator==(b)\<close> on the object \<open>d\<close>.\<close>

definition equals_call ::
  "dictionary \<Rightarrow> dictionary \<Rightarrow> bool option \<times> dictionary \<times> dictionary" where
  "equals_call d b =
     (case size_call b of
        (None, b1) \<Rightarrow> (None, d, b1)
      | (Some sb, b1) \<Rightarrow>
          (case size_call d of
             (None, d1) \<Rightarrow> (None, d1, b1)
           | (Some sd, d1) \<Rightarrow>
               if sb \<noteq> sd then (Some False, d1, b1)
               else
                 (case count_call b1 of
                    (cb, b2) \<Rightarrow>
                      (case count_call d1 of
                         (cd, d2) \<Rightarrow>
                           if cb \<noteq> cd then (Some False, d2, b2)
                           else
                             (case count_call d2 of
                                (ct, d3) \<Rightarrow> equals_loop d3 b2 ct 0)))))"

text \<open>The results of the observers.\<close>

definition search_dict :: "dictionary \<Rightarrow> string \<Rightarrow> string" where
  "search_dict d ks = fst (search_call d ks)"

definition contains :: "dictionary \<Rightarrow> string \<Rightarrow> bool" where
  "contains d ks = fst (contains_call d ks)"

definition count_dict :: "dictionary \<Rightarrow> nat" where
  "count_dict d = fst (count_call d)"

definition key_i :: "dictionary \<Rightarrow> nat \<Rightarrow> string option" where
  "key_i d i = fst (key_call d i)"

definition value_i :: "dictionary \<Rightarrow> nat \<Rightarrow> string option" where
  "value_i d i = fst (value_call d i)"

definition size_dict :: "dictionary \<Rightarrow> nat option" where
  "size_dict d = fst (size_call d)"

definition equals :: "dictionary \<Rightarrow> dictionary \<Rightarrow> bool option" where
  "equals d b = fst (equals_call d b)"

section \<open>Histories and observations used by the properties\<close>

text \<open>A call of one of the two mutators of the public interface.\<close>

datatype op = Insert string string | Remove string

fun apply_op :: "dictionary \<Rightarrow> op \<Rightarrow> dictionary" where
  "apply_op d (Insert ks vs) = insert_dict d ks vs"
| "apply_op d (Remove ks) = remove_dict d ks"

text \<open>The state after a sequence of calls, the first call first.\<close>

definition run :: "op list \<Rightarrow> dictionary \<Rightarrow> dictionary" where
  "run ops d = foldl apply_op d ops"

text \<open>All nodes reachable from a pointer (each with its subtree), left subtree first.\<close>

fun nodes :: "node \<Rightarrow> node list" where
  "nodes Null = []"
| "nodes (Node a k ks vs l r) = nodes l @ Node a k ks vs l r # nodes r"

text \<open>The content of a node: hash key, key string and value string.\<close>

type_synonym content = "uintNN_t \<times> string \<times> string"

fun c_key :: "content \<Rightarrow> uintNN_t" where
  "c_key (k, ks, vs) = k"

fun c_keystr :: "content \<Rightarrow> string" where
  "c_keystr (k, ks, vs) = ks"

fun c_valstr :: "content \<Rightarrow> string" where
  "c_valstr (k, ks, vs) = vs"

text \<open>The reachable nodes as pairs of address and content, left subtree first.\<close>

fun items :: "node \<Rightarrow> (addr \<times> content) list" where
  "items Null = []"
| "items (Node a k ks vs l r) = items l @ (a, k, ks, vs) # items r"

text \<open>The addresses of the reachable nodes, and their contents, in the same order.\<close>

fun addrs :: "node \<Rightarrow> addr list" where
  "addrs Null = []"
| "addrs (Node a k ks vs l r) = addrs l @ a # addrs r"

fun contents :: "node \<Rightarrow> content list" where
  "contents Null = []"
| "contents (Node a k ks vs l r) = contents l @ (k, ks, vs) # contents r"

text \<open>The search-tree order that the descent of \<open>insert_node\<close> establishes: smaller hash
  keys to the left, greater or equal ones to the right.\<close>

fun bst :: "node \<Rightarrow> bool" where
  "bst Null = True"
| "bst (Node a k ks vs l r) =
     ((\<forall>c \<in> set (contents l). c_key c < k) \<and> (\<forall>c \<in> set (contents r). k \<le> c_key c) \<and>
      bst l \<and> bst r)"

text \<open>The tree without its values: addresses, hash keys, key strings and links.\<close>

fun skeleton :: "node \<Rightarrow> node" where
  "skeleton Null = Null"
| "skeleton (Node a k ks vs l r) = Node a k ks [] (skeleton l) (skeleton r)"

text \<open>The stored pairs of key string and value string.\<close>

definition entries :: "dictionary \<Rightarrow> (string \<times> string) set" where
  "entries d = (\<lambda>c. (c_keystr c, c_valstr c)) ` set (contents (iRoot d))"

text \<open>The consistency of an object state: search-tree order, one node per key string, hash
  keys computed by \<open>crc\<close>, one node per address, an index array that lists the
  addresses of the tree without repetition, all of them handed out by the allocator, and
  no released node in the tree.\<close>

definition dict_inv :: "dictionary \<Rightarrow> bool" where
  "dict_inv d \<longleftrightarrow>
     bst (iRoot d) \<and>
     distinct (map c_keystr (contents (iRoot d))) \<and>
     (\<forall>c \<in> set (contents (iRoot d)). c_key c = crc (c_keystr c)) \<and>
     distinct (addrs (iRoot d)) \<and>
     distinct (Q d) \<and>
     set (Q d) = set (addrs (iRoot d)) \<and>
     (\<forall>a \<in> set (addrs (iRoot d)). a < nxt d) \<and>
     set (addrs (iRoot d)) \<inter> freed d = {} \<and>
     (\<forall>a \<in> freed d. a < nxt d)"

section \<open>The observers leave the state as it is\<close>

lemma search_call_eq:
  "search_call d ks =
     ((let p = search_node (crc ks) (iRoot d) ks in if p \<noteq> Null then valstr p else ''''), d)"
  by (simp add: search_call_def Let_def)

lemma contains_call_eq: "contains_call d ks = (search_node (crc ks) (iRoot d) ks \<noteq> Null, d)"
  by (simp add: contains_call_def Let_def)

lemma key_call_eq:
  "key_call d i =
     ((case NodeArray_get (Q d) i of
         None \<Rightarrow> Some ''''
       | Some p \<Rightarrow> (case node_at (iRoot d) p of Null \<Rightarrow> None | Node a k ks vs l r \<Rightarrow> Some ks)), d)"
  by (simp add: key_call_def split: option.splits node.splits)

lemma value_call_eq:
  "value_call d i =
     ((case NodeArray_get (Q d) i of
         None \<Rightarrow> Some ''''
       | Some p \<Rightarrow> (case node_at (iRoot d) p of Null \<Rightarrow> None | Node a k ks vs l r \<Rightarrow> Some vs)), d)"
  by (simp add: value_call_def split: option.splits node.splits)

lemma search_dict_eq:
  "search_dict d ks =
     (let p = search_node (crc ks) (iRoot d) ks in if p \<noteq> Null then valstr p else '''')"
  by (simp add: search_dict_def search_call_eq)

lemma contains_eq: "contains d ks = (search_node (crc ks) (iRoot d) ks \<noteq> Null)"
  by (simp add: contains_def contains_call_eq)

lemma count_dict_eq: "count_dict d = NodeArray_count (Q d)"
  by (simp add: count_dict_def count_call_def)

lemma key_i_eq:
  "key_i d i =
     (case NodeArray_get (Q d) i of
        None \<Rightarrow> Some ''''
      | Some p \<Rightarrow> (case node_at (iRoot d) p of Null \<Rightarrow> None | Node a k ks vs l r \<Rightarrow> Some ks))"
  by (simp add: key_i_def key_call_eq)

lemma value_i_eq:
  "value_i d i =
     (case NodeArray_get (Q d) i of
        None \<Rightarrow> Some ''''
      | Some p \<Rightarrow> (case node_at (iRoot d) p of Null \<Rightarrow> None | Node a k ks vs l r \<Rightarrow> Some vs))"
  by (simp add: value_i_def value_call_eq)

lemma key_call_frame: "key_call d i = (key_i d i, d)"
  by (simp add: key_i_def key_call_eq)

lemma value_call_frame: "value_call d i = (value_i d i, d)"
  by (simp add: value_i_def value_call_eq)

lemma search_call_frame: "search_call d ks = (search_dict d ks, d)"
  by (simp add: search_dict_def search_call_eq)

lemma size_loop_frame: "snd (size_loop d ct i sz) = d"
proof (induction d ct i sz rule: size_loop.induct)
  case (1 d ct i sz)
  show ?case
  proof (cases "i < ct")
    case False
    then show ?thesis by (simp add: size_loop.simps)
  next
    case True
    show ?thesis
    proof (cases "key_i d i")
      case None
      with True show ?thesis by (simp add: size_loop.simps [of d] key_call_frame)
    next
      case (Some ks)
      note k = this
      show ?thesis
      proof (cases "value_i d i")
        case None
        with True k show ?thesis
          by (simp add: size_loop.simps [of d] key_call_frame value_call_frame)
      next
        case (Some vs)
        from 1 [OF True, of "Some ks" d ks "Some vs" d vs] k Some
        have "snd (size_loop d ct (i + 1) (sz + length ks + length vs + 2)) = d"
          by (simp add: key_call_frame value_call_frame)
        with True k Some show ?thesis
          by (simp add: size_loop.simps [of d ct i] key_call_frame value_call_frame)
      qed
    qed
  qed
qed

lemma size_call_frame: "size_call d = (size_dict d, d)"
proof -
  have "snd (size_call d) = d" by (simp add: size_call_def count_call_def size_loop_frame)
  then show ?thesis by (simp add: size_dict_def prod_eq_iff)
qed

lemma equals_loop_frame: "snd (equals_loop d b ct i) = (d, b)"
proof (induction d b ct i rule: equals_loop.induct)
  case (1 d b ct i)
  show ?case
  proof (cases "i < ct")
    case False
    then show ?thesis by (simp add: equals_loop.simps)
  next
    case True
    show ?thesis
    proof (cases "value_i d i")
      case None
      with True show ?thesis by (simp add: equals_loop.simps [of d] value_call_frame)
    next
      case (Some vs)
      note v = this
      show ?thesis
      proof (cases "key_i d i")
        case None
        with True v show ?thesis
          by (simp add: equals_loop.simps [of d] key_call_frame value_call_frame)
      next
        case (Some ks)
        show ?thesis
        proof (cases "vs = search_dict b ks")
          case False
          with True v Some show ?thesis
            by (simp add: equals_loop.simps [of d] key_call_frame value_call_frame
                search_call_frame)
        next
          case eq: True
          from 1 [OF True, of "Some vs" d vs "Some ks" d ks "search_dict b ks" b] v Some eq
          have "snd (equals_loop d b ct (i + 1)) = (d, b)"
            by (simp add: key_call_frame value_call_frame search_call_frame)
          with True v Some eq show ?thesis
            by (simp add: equals_loop.simps [of d b ct i] key_call_frame value_call_frame
                search_call_frame)
        qed
      qed
    qed
  qed
qed

lemma equals_call_frame: "snd (equals_call d b) = (d, b)"
  by (simp add: equals_call_def size_call_frame count_call_def equals_loop_frame
      split: option.splits)

lemma size_loop_unfold:
  "size_loop d ct i sz =
     (if i < ct then
        (case key_i d i of
           None \<Rightarrow> (None, d)
         | Some ks \<Rightarrow>
             (case value_i d i of
                None \<Rightarrow> (None, d)
              | Some vs \<Rightarrow> size_loop d ct (i + 1) (sz + length ks + length vs + 2)))
      else (Some sz, d))"
  by (subst size_loop.simps) (simp add: key_call_frame value_call_frame split: option.splits)

lemma size_dict_unfold: "size_dict d = fst (size_loop d (count_dict d) 0 0)"
  by (simp add: size_dict_def size_call_def count_call_def count_dict_def)

lemma equals_loop_unfold:
  "equals_loop d b ct i =
     (if i < ct then
        (case value_i d i of
           None \<Rightarrow> (None, d, b)
         | Some vs \<Rightarrow>
             (case key_i d i of
                None \<Rightarrow> (None, d, b)
              | Some ks \<Rightarrow>
                  if vs \<noteq> search_dict b ks then (Some False, d, b)
                  else equals_loop d b ct (i + 1)))
      else (Some True, d, b))"
  by (subst equals_loop.simps)
    (simp add: key_call_frame value_call_frame search_call_frame split: option.splits)

lemma equals_unfold:
  "equals d b =
     (case size_dict b of
        None \<Rightarrow> None
      | Some sb \<Rightarrow>
          (case size_dict d of
             None \<Rightarrow> None
           | Some sd \<Rightarrow>
               if sb \<noteq> sd then Some False
               else if count_dict b \<noteq> count_dict d then Some False
               else fst (equals_loop d b (count_dict d) 0)))"
  by (simp add: equals_def equals_call_def size_call_frame count_call_def count_dict_def
      split: option.splits)

section \<open>Case analysis of the recursive descents\<close>

lemma insert_node_cases [consumes 1, case_names found left_rec left_new right_rec right_new]:
  assumes "insert_node k ks vs (Node a lk lks lvs l r) d = (t', d')"
  obtains
    "k = lk" "lks = ks" "t' = Node a lk lks vs l r" "d' = d"
  | l' where "k < lk" "l \<noteq> Null" "insert_node k ks vs l d = (l', d')"
      "t' = Node a lk lks lvs l' r"
  | "k < lk" "l = Null" "t' = Node a lk lks lvs (Node (nxt d) k ks vs Null Null) r"
      "d' = d\<lparr>Q := NodeArray_append (Q d) (nxt d), nxt := Suc (nxt d)\<rparr>"
  | r' where "\<not> k < lk" "\<not> (k = lk \<and> lks = ks)" "r \<noteq> Null"
      "insert_node k ks vs r d = (r', d')" "t' = Node a lk lks lvs l r'"
  | "\<not> k < lk" "\<not> (k = lk \<and> lks = ks)" "r = Null"
      "t' = Node a lk lks lvs l (Node (nxt d) k ks vs Null Null)"
      "d' = d\<lparr>Q := NodeArray_append (Q d) (nxt d), nxt := Suc (nxt d)\<rparr>"
proof (cases "k < lk")
  case True
  show ?thesis
  proof (cases "l = Null")
    case True
    with assms \<open>k < lk\<close> that(3) show ?thesis by (simp add: new_node_def)
  next
    case False
    with assms \<open>k < lk\<close> that(2) show ?thesis by (simp split: prod.splits)
  qed
next
  case nlt: False
  show ?thesis
  proof (cases "k = lk \<and> lks = ks")
    case True
    with assms that(1) show ?thesis by simp
  next
    case ne: False
    show ?thesis
    proof (cases "r = Null")
      case True
      with assms nlt ne that(5) show ?thesis
        by (cases "lk < k") (simp_all add: new_node_def)
    next
      case False
      with assms nlt ne that(4) show ?thesis
        by (cases "lk < k") (simp_all split: prod.splits)
    qed
  qed
qed


lemma deleteNode_cases [consumes 1, case_names left right del_l del_r two]:
  assumes "deleteNode (Node a rk rks rvs l r) k ks d = (t', d')"
  obtains
    l' where "k < rk" "deleteNode l k ks d = (l', d')" "t' = Node a rk rks rvs l' r"
  | r' where "\<not> k < rk" "\<not> (k = rk \<and> rks = ks)" "deleteNode r k ks d = (r', d')"
      "t' = Node a rk rks rvs l r'"
  | "k = rk" "rks = ks" "l = Null" "t' = r" "d' = release a d"
  | "k = rk" "rks = ks" "l \<noteq> Null" "r = Null" "t' = l" "d' = release a d"
  | r' where "k = rk" "rks = ks" "l \<noteq> Null" "r \<noteq> Null"
      "deleteNode r (key (minValueNode r)) (keystr (minValueNode r)) d = (r', d')"
      "t' = Node a (key (minValueNode r)) (keystr (minValueNode r)) (valstr (minValueNode r)) l r'"
proof (cases "k < rk")
  case True
  obtain l' d'' where rec: "deleteNode l k ks d = (l', d'')"
    by (cases "deleteNode l k ks d")
  with assms True have "t' = Node a rk rks rvs l' r" "d'' = d'" by simp_all
  with rec True show ?thesis by (intro that(1)) simp_all
next
  case nlt: False
  show ?thesis
  proof (cases "k = rk \<and> rks = ks")
    case False
    obtain r' d'' where rec: "deleteNode r k ks d = (r', d'')"
      by (cases "deleteNode r k ks d")
    with assms nlt False have "t' = Node a rk rks rvs l r'" "d'' = d'"
      by (simp_all split: if_splits)
    with rec nlt False show ?thesis by (intro that(2)) simp_all
  next
    case True
    show ?thesis
    proof (cases "l = Null")
      case True
      with assms \<open>k = rk \<and> rks = ks\<close> have "t' = r" "d' = release a d" by auto
      with True \<open>k = rk \<and> rks = ks\<close> show ?thesis by (intro that(3)) simp_all
    next
      case lnn: False
      show ?thesis
      proof (cases "r = Null")
        case True
        with assms \<open>k = rk \<and> rks = ks\<close> lnn have "t' = l" "d' = release a d" by auto
        with True lnn \<open>k = rk \<and> rks = ks\<close> show ?thesis by (intro that(4)) simp_all
      next
        case rnn: False
        obtain r' d'' where
          rec: "deleteNode r (key (minValueNode r)) (keystr (minValueNode r)) d = (r', d'')"
          by (cases "deleteNode r (key (minValueNode r)) (keystr (minValueNode r)) d")
        with assms True lnn rnn have
          "t' = Node a (key (minValueNode r)) (keystr (minValueNode r)) (valstr (minValueNode r)) l r'"
          "d'' = d'"
          by (simp_all add: Let_def)
        with rec True lnn rnn show ?thesis
          by (intro that(5)) simp_all
      qed
    qed
  qed
qed


section \<open>The tree after an insertion\<close>

lemma items_Null_iff [simp]: "items t = [] \<longleftrightarrow> t = Null"
  by (cases t) auto

lemma map_fst_items [simp]: "map fst (items t) = addrs t"
  by (induction t) auto

lemma map_snd_items [simp]: "map snd (items t) = contents t"
  by (induction t) auto

lemma length_addrs_contents: "length (addrs t) = length (contents t)"
  by (induction t) auto

lemma bst_left: "bst (Node a k ks vs l r) \<Longrightarrow> c \<in> set (contents l) \<Longrightarrow> c_key c < k"
  by simp

lemma bst_right: "bst (Node a k ks vs l r) \<Longrightarrow> c \<in> set (contents r) \<Longrightarrow> k \<le> c_key c"
  by simp

lemma search_node_found:
  "search_node k t ks = n \<Longrightarrow> n \<noteq> Null \<Longrightarrow>
   key n = k \<and> keystr n = ks \<and> (address n, k, ks, valstr n) \<in> set (items t) \<and>
   (k, ks, valstr n) \<in> set (contents t)"
  by (induction t) (auto split: if_splits)

lemma search_node_complete:
  "bst t \<Longrightarrow> (k, ks, v) \<in> set (contents t) \<Longrightarrow> search_node k t ks \<noteq> Null"
  by (induction t) (auto split: if_splits)

lemma insert_node_absent:
  "t \<noteq> Null \<Longrightarrow> insert_node k ks vs t d = (t', d') \<Longrightarrow> search_node k t ks = Null \<Longrightarrow>
   mset (items t') = add_mset (nxt d, k, ks, vs) (mset (items t)) \<and>
   d' = d\<lparr>Q := NodeArray_append (Q d) (nxt d), nxt := Suc (nxt d)\<rparr>"
proof (induction t arbitrary: t')
  case Null
  then show ?case by simp
next
  case (Node a lk lks lvs l r)
  from Node.prems(2) show ?case
  proof (cases rule: insert_node_cases)
    case found
    with Node.prems(3) show ?thesis by simp
  next
    case (left_rec l')
    then have "k \<noteq> lk" by auto
    with left_rec Node.prems(3) Node.IH(1) [of l'] show ?thesis by simp
  next
    case left_new
    then show ?thesis by simp
  next
    case (right_rec r')
    with Node.prems(3) Node.IH(2) [of r'] show ?thesis by (simp split: if_splits)
  next
    case right_new
    then show ?thesis by simp
  qed
qed

lemma insert_node_present:
  "t \<noteq> Null \<Longrightarrow> insert_node k ks vs t d = (t', d') \<Longrightarrow> search_node k t ks \<noteq> Null \<Longrightarrow>
   d' = d \<and> skeleton t' = skeleton t"
proof (induction t arbitrary: t')
  case Null
  then show ?case by simp
next
  case (Node a lk lks lvs l r)
  from Node.prems(2) show ?case
  proof (cases rule: insert_node_cases)
    case found
    then show ?thesis by simp
  next
    case (left_rec l')
    then have "k \<noteq> lk" by auto
    with left_rec Node.prems(3) Node.IH(1) [of l'] show ?thesis by simp
  next
    case left_new
    then have "k \<noteq> lk" by auto
    with left_new Node.prems(3) show ?thesis by simp
  next
    case (right_rec r')
    with Node.prems(3) Node.IH(2) [of r'] show ?thesis by (simp split: if_splits)
  next
    case right_new
    with Node.prems(3) show ?thesis by (simp split: if_splits)
  qed
qed

lemma insert_node_keys:
  "t \<noteq> Null \<Longrightarrow> insert_node k ks vs t d = (t', d') \<Longrightarrow>
   c_key ` set (contents t') = insert k (c_key ` set (contents t))"
proof (induction t arbitrary: t')
  case Null
  then show ?case by simp
next
  case (Node a lk lks lvs l r)
  from Node.prems(2) show ?case
  proof (cases rule: insert_node_cases)
    case found
    then show ?thesis by (auto simp: image_Un)
  next
    case (left_rec l')
    with Node.IH(1) [of l'] show ?thesis by (auto simp: image_Un)
  next
    case left_new
    then show ?thesis by (auto simp: image_Un)
  next
    case (right_rec r')
    with Node.IH(2) [of r'] show ?thesis by (auto simp: image_Un)
  next
    case right_new
    then show ?thesis by (auto simp: image_Un)
  qed
qed

lemma insert_node_bst:
  "t \<noteq> Null \<Longrightarrow> insert_node k ks vs t d = (t', d') \<Longrightarrow> bst t \<Longrightarrow> bst t'"
proof (induction t arbitrary: t')
  case Null
  then show ?case by simp
next
  case (Node a lk lks lvs l r)
  from Node.prems(2) show ?case
  proof (cases rule: insert_node_cases)
    case found
    with Node.prems(3) show ?thesis by simp
  next
    case (left_rec l')
    have "\<forall>c\<in>set (contents l'). c_key c < lk"
    proof
      fix c assume "c \<in> set (contents l')"
      then have "c_key c \<in> c_key ` set (contents l')" by (rule imageI)
      also have "\<dots> = insert k (c_key ` set (contents l))"
        by (rule insert_node_keys [OF left_rec(2,3)])
      finally have "c_key c = k \<or> c_key c \<in> c_key ` set (contents l)" by blast
      with left_rec(1) Node.prems(3) show "c_key c < lk" by auto
    qed
    with left_rec Node.prems(3) Node.IH(1) [of l'] show ?thesis by simp
  next
    case left_new
    with Node.prems(3) show ?thesis by simp
  next
    case (right_rec r')
    have "\<forall>c\<in>set (contents r'). lk \<le> c_key c"
    proof
      fix c assume "c \<in> set (contents r')"
      then have "c_key c \<in> c_key ` set (contents r')" by (rule imageI)
      also have "\<dots> = insert k (c_key ` set (contents r))"
        by (rule insert_node_keys [OF right_rec(3,4)])
      finally have "c_key c = k \<or> c_key c \<in> c_key ` set (contents r)" by blast
      with right_rec(1) Node.prems(3) show "lk \<le> c_key c" by auto
    qed
    with right_rec Node.prems(3) Node.IH(2) [of r'] show ?thesis by simp
  next
    case right_new
    with Node.prems(3) show ?thesis by simp
  qed
qed

lemma insert_node_present_items:
  "t \<noteq> Null \<Longrightarrow> insert_node k ks vs t d = (t', d') \<Longrightarrow> search_node k t ks \<noteq> Null \<Longrightarrow>
   \<exists>xs ys a v. items t = xs @ (a, k, ks, v) # ys \<and> items t' = xs @ (a, k, ks, vs) # ys"
proof (induction k ks vs t d arbitrary: t' d' rule: insert_node.induct)
  case (1 k ks vs a lk lks lvs l r d)
  show ?case
  proof (cases "k = lk \<and> lks = ks")
    case True
    with 1(5) have "t' = Node a lk lks vs l r" by simp
    with True show ?thesis by auto
  next
    case False
    show ?thesis
    proof (cases "k < lk")
      case True
      with 1(6) False have l: "l \<noteq> Null" "search_node k l ks \<noteq> Null" by auto
      obtain l' where il: "insert_node k ks vs l d = (l', d')" and t': "t' = Node a lk lks lvs l' r"
        using 1(5) True l by (auto split: prod.splits)
      from 1(1) [OF True l(1) l(1) il l(2)] obtain xs ys a' v where
        "items l = xs @ (a', k, ks, v) # ys" "items l' = xs @ (a', k, ks, vs) # ys" by blast
      then have "items (Node a lk lks lvs l r) = xs @ (a', k, ks, v) # (ys @ (a, lk, lks, lvs) # items r)"
        and "items t' = xs @ (a', k, ks, vs) # (ys @ (a, lk, lks, lvs) # items r)"
        using t' by simp_all
      then show ?thesis by blast
    next
      case nl: False
      with 1(6) False have r: "r \<noteq> Null" "search_node k r ks \<noteq> Null" by auto
      obtain r' where ir: "insert_node k ks vs r d = (r', d')" and t': "t' = Node a lk lks lvs l r'"
        using 1(5) nl False r by (auto split: prod.splits if_splits)
      have "\<exists>xs ys a' v. items r = xs @ (a', k, ks, v) # ys \<and> items r' = xs @ (a', k, ks, vs) # ys"
      proof (cases "lk < k")
        case True
        from 1(2) [OF nl True r(1) r(1) ir r(2)] show ?thesis .
      next
        case False
        with nl have e: "k = lk" by simp
        with \<open>\<not> (k = lk \<and> lks = ks)\<close> have "lks \<noteq> ks" by simp
        from 1(3) [OF nl False e this r(1) r(1) ir r(2)] show ?thesis .
      qed
      then obtain xs ys a' v where
        "items r = xs @ (a', k, ks, v) # ys" "items r' = xs @ (a', k, ks, vs) # ys" by blast
      then have "items (Node a lk lks lvs l r) = (items l @ (a, lk, lks, lvs) # xs) @ (a', k, ks, v) # ys"
        and "items t' = (items l @ (a, lk, lks, lvs) # xs) @ (a', k, ks, vs) # ys"
        using t' by simp_all
      then show ?thesis by blast
    qed
  qed
next
  case (2 a b c e)
  then show ?case by simp
qed

section \<open>The tree after a deletion\<close>

lemma minValueNode_in:
  "r \<noteq> Null \<Longrightarrow> minValueNode r \<noteq> Null \<and>
   (key (minValueNode r), keystr (minValueNode r), valstr (minValueNode r)) \<in> set (contents r)"
  by (induction r) auto

lemma minValueNode_least:
  "bst r \<Longrightarrow> c \<in> set (contents r) \<Longrightarrow> key (minValueNode r) \<le> c_key c"
proof (induction r)
  case Null
  then show ?case by simp
next
  case (Node a k ks vs l r)
  show ?case
  proof (cases "l = Null")
    case True
    with Node.prems show ?thesis by auto
  next
    case False
    from minValueNode_in [OF False] have "(key (minValueNode l), keystr (minValueNode l),
      valstr (minValueNode l)) \<in> set (contents l)" by simp
    from bst_left [OF Node.prems(1) this] have lt: "key (minValueNode l) < k" by simp
    from Node.prems(2) consider "c \<in> set (contents l)" | "c = (k, ks, vs)" | "c \<in> set (contents r)"
      by auto
    then show ?thesis
    proof cases
      case 1
      with Node.IH(1) Node.prems(1) False show ?thesis by simp
    next
      case 2
      with lt False show ?thesis by simp
    next
      case 3
      from bst_right [OF Node.prems(1) this] have "k \<le> c_key c" .
      with lt False show ?thesis by simp
    qed
  qed
qed

lemma deleteNode_subset:
  "deleteNode t k ks d = (t', d') \<Longrightarrow> set (contents t') \<subseteq> set (contents t)"
proof (induction t arbitrary: t' k ks)
  case Null
  then show ?case by simp
next
  case (Node a rk rks rvs l r)
  from Node.prems show ?case
  proof (cases rule: deleteNode_cases)
    case (left l')
    with Node.IH(1) [of k ks l'] show ?thesis by auto
  next
    case (right r')
    with Node.IH(2) [of k ks r'] show ?thesis by auto
  next
    case del_l
    then show ?thesis by auto
  next
    case del_r
    then show ?thesis by auto
  next
    case (two r')
    from minValueNode_in [OF two(4)] have "(key (minValueNode r), keystr (minValueNode r),
      valstr (minValueNode r)) \<in> set (contents r)" by simp
    with two Node.IH(2) [OF two(5)] show ?thesis by auto
  qed
qed

lemma deleteNode_bst:
  "deleteNode t k ks d = (t', d') \<Longrightarrow> bst t \<Longrightarrow> bst t'"
proof (induction t arbitrary: t' k ks)
  case Null
  then show ?case by simp
next
  case (Node a rk rks rvs l r)
  from Node.prems(1) show ?case
  proof (cases rule: deleteNode_cases)
    case (left l')
    from deleteNode_subset [OF left(2)] Node.prems(2)
    have "\<forall>c\<in>set (contents l'). c_key c < rk" by auto
    with left Node.prems(2) Node.IH(1) [OF left(2)] show ?thesis by simp
  next
    case (right r')
    from deleteNode_subset [OF right(3)] Node.prems(2)
    have "\<forall>c\<in>set (contents r'). rk \<le> c_key c" by auto
    with right Node.prems(2) Node.IH(2) [OF right(3)] show ?thesis by simp
  next
    case del_l
    with Node.prems(2) show ?thesis by simp
  next
    case del_r
    with Node.prems(2) show ?thesis by simp
  next
    case (two r')
    let ?m = "minValueNode r"
    from minValueNode_in [OF two(4)] have "(key ?m, keystr ?m, valstr ?m) \<in> set (contents r)"
      by simp
    from bst_right [OF Node.prems(2) this] have "rk \<le> key ?m" by simp
    with Node.prems(2) have 1: "\<forall>c\<in>set (contents l). c_key c < key ?m" by auto
    have 2: "\<forall>c\<in>set (contents r'). key ?m \<le> c_key c"
    proof
      fix c assume "c \<in> set (contents r')"
      with deleteNode_subset [OF two(5)] have "c \<in> set (contents r)" by blast
      with Node.prems(2) show "key ?m \<le> c_key c" by (simp add: minValueNode_least)
    qed
    from Node.prems(2) Node.IH(2) [OF two(5)] have "bst l" "bst r'" by simp_all
    with 1 2 two(6) show ?thesis by simp
  qed
qed

lemma distinct_keystr_value:
  "distinct (map c_keystr cs) \<Longrightarrow> (k, ks, v) \<in> set cs \<Longrightarrow> (k', ks, v') \<in> set cs \<Longrightarrow>
   k' = k \<and> v' = v"
proof -
  assume d: "distinct (map c_keystr cs)" and 1: "(k, ks, v) \<in> set cs" and 2: "(k', ks, v') \<in> set cs"
  from d have "inj_on c_keystr (set cs)" by (simp add: distinct_map)
  from inj_onD [OF this _ 1 2] show ?thesis by simp
qed

lemma deleteNode_contents:
  "deleteNode t k ks d = (t', d') \<Longrightarrow> bst t \<Longrightarrow> distinct (map c_keystr (contents t)) \<Longrightarrow>
   (k, ks, v) \<in> set (contents t) \<Longrightarrow> mset (contents t) = add_mset (k, ks, v) (mset (contents t'))"
proof (induction t arbitrary: t' k ks v)
  case Null
  then show ?case by simp
next
  case (Node a rk rks rvs l r)
  note bst = Node.prems(2) and dist = Node.prems(3) and mem = Node.prems(4)
  from dist have dl: "distinct (map c_keystr (contents l))" and dr: "distinct (map c_keystr (contents r))"
    by simp_all
  from bst have bl: "bst l" and br: "bst r" by simp_all
  from Node.prems(1) show ?case
  proof (cases rule: deleteNode_cases)
    case (left l')
    have "(k, ks, v) \<notin> set (contents r)"
      using bst_right [OF bst, of "(k, ks, v)"] left(1) by auto
    with mem left(1) have "(k, ks, v) \<in> set (contents l)" by auto
    from Node.IH(1) [OF left(2) bl dl this] left(3) show ?thesis by simp
  next
    case (right r')
    have "(k, ks, v) \<notin> set (contents l)"
      using bst_left [OF bst, of "(k, ks, v)"] right(1) by auto
    with mem right(2) have "(k, ks, v) \<in> set (contents r)" by auto
    from Node.IH(2) [OF right(3) br dr this] right(4) show ?thesis by simp
  next
    case del_l
    have "(rk, rks, rvs) \<in> set (contents (Node a rk rks rvs l r))" by simp
    from distinct_keystr_value [OF dist this] mem del_l have "v = rvs" by blast
    with del_l show ?thesis by simp
  next
    case del_r
    have "(rk, rks, rvs) \<in> set (contents (Node a rk rks rvs l r))" by simp
    from distinct_keystr_value [OF dist this] mem del_r have "v = rvs" by blast
    with del_r show ?thesis by simp
  next
    case (two r')
    let ?m = "minValueNode r"
    have "(rk, rks, rvs) \<in> set (contents (Node a rk rks rvs l r))" by simp
    from distinct_keystr_value [OF dist this] mem two have v: "v = rvs" by blast
    from minValueNode_in [OF two(4)] have "(key ?m, keystr ?m, valstr ?m) \<in> set (contents r)"
      by simp
    from Node.IH(2) [OF two(5) br dr this]
    have "mset (contents r) = add_mset (key ?m, keystr ?m, valstr ?m) (mset (contents r'))" .
    with two v show ?thesis by simp
  qed
qed

lemma deleteNode_addrs:
  "deleteNode t k ks d = (t', d') \<Longrightarrow>
   (d' = d \<and> addrs t' = addrs t) \<or>
   (\<exists>a. mset (addrs t) = add_mset a (mset (addrs t')) \<and> d' = release a d)"
proof (induction t arbitrary: t' k ks)
  case Null
  then show ?case by simp
next
  case (Node a rk rks rvs l r)
  from Node.prems(1) show ?case
  proof (cases rule: deleteNode_cases)
    case (left l')
    from Node.IH(1) [OF left(2)] left(3) show ?thesis by auto
  next
    case (right r')
    from Node.IH(2) [OF right(3)] right(4) show ?thesis by auto
  next
    case del_l
    then show ?thesis by auto
  next
    case del_r
    then show ?thesis by auto
  next
    case (two r')
    from Node.IH(2) [OF two(5)] two(6) show ?thesis by auto
  qed
qed


section \<open>Consistency of the object state\<close>

lemma mset_add_map:
  "mset xs = add_mset x (mset ys) \<Longrightarrow> mset (map f xs) = add_mset (f x) (mset (map f ys))"
  by (metis image_mset_add_mset mset_map)

lemma mset_add_distinct:
  "mset xs = add_mset x (mset ys) \<Longrightarrow> distinct xs \<longleftrightarrow> x \<notin> set ys \<and> distinct ys"
proof -
  assume "mset xs = add_mset x (mset ys)"
  then have "mset xs = mset (x # ys)" by simp
  from mset_eq_imp_distinct_iff [OF this] show ?thesis by simp
qed

lemma mset_add_set:
  "mset xs = add_mset x (mset ys) \<Longrightarrow> set xs = insert x (set ys)"
proof -
  assume "mset xs = add_mset x (mset ys)"
  then have "mset xs = mset (x # ys)" by simp
  from mset_eq_setD [OF this] show ?thesis by simp
qed

lemma dict_inv_Dictionary: "dict_inv (Dictionary n)"
  by (simp add: dict_inv_def Dictionary_def NodeArray_new_def)

lemma entries_Dictionary: "entries (Dictionary n) = {}"
  by (simp add: entries_def Dictionary_def)

lemma absent_keystr:
  assumes "bst t" "\<forall>c\<in>set (contents t). c_key c = crc (c_keystr c)"
    "search_node (crc ks) t ks = Null"
  shows "\<forall>c\<in>set (contents t). c_keystr c \<noteq> ks"
proof
  fix c assume c: "c \<in> set (contents t)"
  show "c_keystr c \<noteq> ks"
  proof
    assume e: "c_keystr c = ks"
    obtain k ks' v where c3: "c = (k, ks', v)" by (cases c)
    with e c assms(2) have "(crc ks, ks, v) \<in> set (contents t)" by auto
    with search_node_complete [OF assms(1)] assms(3) show False by blast
  qed
qed

lemma insert_dict_absent:
  assumes inv: "dict_inv d" and abs: "search_node (crc ks) (iRoot d) ks = Null"
  shows "dict_inv (insert_dict d ks vs) \<and> entries (insert_dict d ks vs) = insert (ks, vs) (entries d)"
proof -
  let ?t = "iRoot d" and ?d' = "insert_dict d ks vs"
  let ?t' = "iRoot ?d'"
  have st: "mset (items ?t') = add_mset (nxt d, crc ks, ks, vs) (mset (items ?t)) \<and>
    Q ?d' = Q d @ [nxt d] \<and> nxt ?d' = Suc (nxt d) \<and> freed ?d' = freed d \<and>
    (?t \<noteq> Null \<longrightarrow> bst ?t')"
  proof (cases "?t = Null")
    case True
    then show ?thesis
      by (simp add: insert_dict_def new_node_def NodeArray_append_def)
  next
    case False
    obtain t' d' where ins: "insert_node (crc ks) ks vs ?t d = (t', d')"
      by (cases "insert_node (crc ks) ks vs ?t d")
    from insert_node_absent [OF False ins abs] insert_node_bst [OF False ins] inv False ins
    show ?thesis
      by (simp add: insert_dict_def NodeArray_append_def dict_inv_def)
  qed
  from st have ms: "mset (items ?t') = add_mset (nxt d, crc ks, ks, vs) (mset (items ?t))" by simp
  from mset_add_map [OF ms, of fst] have ma: "mset (addrs ?t') = add_mset (nxt d) (mset (addrs ?t))"
    by simp
  from mset_add_map [OF ms, of snd]
  have mc: "mset (contents ?t') = add_mset (crc ks, ks, vs) (mset (contents ?t))" by simp
  from mset_add_map [OF mc, of c_keystr]
  have mk: "mset (map c_keystr (contents ?t')) = add_mset ks (mset (map c_keystr (contents ?t)))"
    by simp
  from inv have b: "bst ?t" and keyed: "\<forall>c\<in>set (contents ?t). c_key c = crc (c_keystr c)"
    and dk: "distinct (map c_keystr (contents ?t))" and da: "distinct (addrs ?t)"
    and dq: "distinct (Q d)" and sq: "set (Q d) = set (addrs ?t)"
    and lt: "\<forall>a\<in>set (addrs ?t). a < nxt d"
    and fr: "set (addrs ?t) \<inter> freed d = {}" and fl: "\<forall>a\<in>freed d. a < nxt d"
    by (simp_all add: dict_inv_def)
  from absent_keystr [OF b keyed abs] have nk: "ks \<notin> set (map c_keystr (contents ?t))" by auto
  from lt have na: "nxt d \<notin> set (addrs ?t)" by auto
  have 1: "bst ?t'"
  proof (cases "?t = Null")
    case True
    with mc have "mset (contents ?t') = {#(crc ks, ks, vs)#}" by simp
    then show ?thesis by (simp add: insert_dict_def new_node_def True)
  next
    case False
    with st show ?thesis by simp
  qed
  have 2: "distinct (map c_keystr (contents ?t'))"
    using mset_add_distinct [OF mk] nk dk by simp
  have 3: "\<forall>c\<in>set (contents ?t'). c_key c = crc (c_keystr c)"
    using mset_add_set [OF mc] keyed by simp
  have 4: "distinct (addrs ?t')"
    using mset_add_distinct [OF ma] na da by simp
  have 5: "distinct (Q ?d')" using st dq sq na by simp
  have 6: "set (Q ?d') = set (addrs ?t')" using st sq mset_add_set [OF ma] by simp
  have 7: "\<forall>a\<in>set (addrs ?t'). a < nxt ?d'" using st lt mset_add_set [OF ma] by auto
  have 8: "entries ?d' = insert (ks, vs) (entries d)"
    using mset_add_set [OF mc] by (simp add: entries_def)
  from fl have "nxt d \<notin> freed d" by auto
  with st fr mset_add_set [OF ma] have 9: "set (addrs ?t') \<inter> freed ?d' = {}" by simp
  have 10: "\<forall>a\<in>freed ?d'. a < nxt ?d'" using st fl by auto
  from 1 2 3 4 5 6 7 8 9 10 show ?thesis by (simp add: dict_inv_def)
qed

lemma insert_dict_present:
  assumes inv: "dict_inv d" and pres: "search_node (crc ks) (iRoot d) ks \<noteq> Null"
  shows "dict_inv (insert_dict d ks vs) \<and>
    entries (insert_dict d ks vs) = insert (ks, vs) {e \<in> entries d. fst e \<noteq> ks}"
proof -
  let ?t = "iRoot d" and ?d' = "insert_dict d ks vs"
  let ?t' = "iRoot ?d'"
  from pres have nn: "?t \<noteq> Null" by auto
  obtain t' d' where ins: "insert_node (crc ks) ks vs ?t d = (t', d')"
    by (cases "insert_node (crc ks) ks vs ?t d")
  from insert_node_present [OF nn ins pres] have d': "d' = d" by simp
  with ins nn have t': "?t' = t'" and rest: "Q ?d' = Q d" "nxt ?d' = nxt d" "freed ?d' = freed d"
    by (simp_all add: insert_dict_def)
  from insert_node_present_items [OF nn ins pres] obtain xs ys a v where
    it: "items ?t = xs @ (a, crc ks, ks, v) # ys" and it': "items t' = xs @ (a, crc ks, ks, vs) # ys"
    by blast
  have a: "addrs ?t' = addrs ?t"
    using arg_cong [OF it, of "map fst"] arg_cong [OF it', of "map fst"] t' by simp
  define cs1 cs2 where "cs1 = map snd xs" and "cs2 = map snd ys"
  have c: "contents ?t = cs1 @ (crc ks, ks, v) # cs2"
    using arg_cong [OF it, of "map snd"] by (simp add: cs1_def cs2_def)
  have c': "contents ?t' = cs1 @ (crc ks, ks, vs) # cs2"
    using arg_cong [OF it', of "map snd"] t' by (simp add: cs1_def cs2_def)
  from inv have b: "bst ?t" and keyed: "\<forall>c\<in>set (contents ?t). c_key c = crc (c_keystr c)"
    and dk: "distinct (map c_keystr (contents ?t))" and da: "distinct (addrs ?t)"
    and dq: "distinct (Q d)" and sq: "set (Q d) = set (addrs ?t)"
    and lt: "\<forall>a\<in>set (addrs ?t). a < nxt d"
    and fr: "set (addrs ?t) \<inter> freed d = {}" and fl: "\<forall>a\<in>freed d. a < nxt d"
    by (simp_all add: dict_inv_def)
  have 1: "bst ?t'" using insert_node_bst [OF nn ins b] t' by simp
  have 2: "distinct (map c_keystr (contents ?t'))" using dk c c' by simp
  have 3: "\<forall>c\<in>set (contents ?t'). c_key c = crc (c_keystr c)" using keyed c c' by auto
  from dk c have nx: "\<forall>c\<in>set cs1. c_keystr c \<noteq> ks" and ny: "\<forall>c\<in>set cs2. c_keystr c \<noteq> ks"
    by auto
  have 8: "entries ?d' = insert (ks, vs) {e \<in> entries d. fst e \<noteq> ks}"
    unfolding entries_def c c' using nx ny by auto
  from 1 2 3 a da dq sq lt fr fl rest 8 show ?thesis by (simp add: dict_inv_def)
qed

lemma insert_dict_inv:
  assumes "dict_inv d"
  shows "dict_inv (insert_dict d ks vs) \<and>
    entries (insert_dict d ks vs) = insert (ks, vs) {e \<in> entries d. fst e \<noteq> ks}"
proof (cases "search_node (crc ks) (iRoot d) ks = Null")
  case True
  from assms have "bst (iRoot d)" "\<forall>c\<in>set (contents (iRoot d)). c_key c = crc (c_keystr c)"
    by (simp_all add: dict_inv_def)
  from absent_keystr [OF this True] have "{e \<in> entries d. fst e \<noteq> ks} = entries d"
    by (auto simp: entries_def)
  with insert_dict_absent [OF assms True] show ?thesis by simp
next
  case False
  from insert_dict_present [OF assms False] show ?thesis .
qed

lemma remove_dict_inv:
  assumes inv: "dict_inv d"
  shows "dict_inv (remove_dict d ks) \<and> entries (remove_dict d ks) = {e \<in> entries d. fst e \<noteq> ks}"
proof (cases "search_node (crc ks) (iRoot d) ks = Null")
  case True
  from inv have "bst (iRoot d)" "\<forall>c\<in>set (contents (iRoot d)). c_key c = crc (c_keystr c)"
    by (simp_all add: dict_inv_def)
  from absent_keystr [OF this True] have "{e \<in> entries d. fst e \<noteq> ks} = entries d"
    by (auto simp: entries_def)
  with True inv show ?thesis by (simp add: remove_dict_def)
next
  case False
  let ?t = "iRoot d" and ?d' = "remove_dict d ks"
  let ?t' = "iRoot ?d'"
  let ?p = "search_node (crc ks) ?t ks"
  from search_node_found [OF refl False] have kp: "key ?p = crc ks"
    and mem: "(crc ks, ks, valstr ?p) \<in> set (contents ?t)" by simp_all
  obtain t' d' where del: "deleteNode ?t (crc ks) ks d = (t', d')"
    by (cases "deleteNode ?t (crc ks) ks d")
  with False kp have t': "?t' = t'" and rest: "Q ?d' = Q d'" "nxt ?d' = nxt d'"
    "freed ?d' = freed d'"
    by (simp_all add: remove_dict_def)
  from inv have b: "bst ?t" and keyed: "\<forall>c\<in>set (contents ?t). c_key c = crc (c_keystr c)"
    and dk: "distinct (map c_keystr (contents ?t))" and da: "distinct (addrs ?t)"
    and dq: "distinct (Q d)" and sq: "set (Q d) = set (addrs ?t)"
    and lt: "\<forall>a\<in>set (addrs ?t). a < nxt d"
    and fr: "set (addrs ?t) \<inter> freed d = {}" and fl: "\<forall>a\<in>freed d. a < nxt d"
    by (simp_all add: dict_inv_def)
  from deleteNode_contents [OF del b dk mem]
  have mc: "mset (contents ?t) = add_mset (crc ks, ks, valstr ?p) (mset (contents t'))" .
  from mset_add_map [OF mc, of c_keystr]
  have mk: "mset (map c_keystr (contents ?t)) = add_mset ks (mset (map c_keystr (contents t')))"
    by simp
  from mc have "length (contents ?t) = Suc (length (contents t'))"
    by (metis size_add_mset size_mset)
  then have "addrs t' \<noteq> addrs ?t"
    by (metis length_addrs_contents n_not_Suc_n)
  with deleteNode_addrs [OF del] obtain a where
    ma: "mset (addrs ?t) = add_mset a (mset (addrs t'))" and d': "d' = release a d" by blast
  have 1: "bst ?t'" using deleteNode_bst [OF del b] t' by simp
  from mset_add_distinct [OF mk] dk have 2: "distinct (map c_keystr (contents t'))"
    and nk: "ks \<notin> set (map c_keystr (contents t'))" by simp_all
  have 3: "\<forall>c\<in>set (contents t'). c_key c = crc (c_keystr c)"
    using mset_add_set [OF mc] keyed by simp
  from mset_add_distinct [OF ma] da have 4: "distinct (addrs t')" and na: "a \<notin> set (addrs t')"
    by simp_all
  have 5: "distinct (Q ?d')" using rest d' dq by (simp add: release_def NodeArray_remove_def)
  have 6: "set (Q ?d') = set (addrs t')"
    using rest d' dq sq mset_add_set [OF ma] na
    by (auto simp: release_def NodeArray_remove_def)
  have 7: "\<forall>a\<in>set (addrs t'). a < nxt ?d'"
    using rest d' lt mset_add_set [OF ma] by (simp add: release_def)
  have 8: "entries ?d' = {e \<in> entries d. fst e \<noteq> ks}"
    unfolding entries_def t' using mset_add_set [OF mc] nk by (auto simp: image_iff)
  from mset_add_set [OF ma] have sa: "set (addrs ?t) = insert a (set (addrs t'))" .
  with fr na rest d' have 9: "set (addrs t') \<inter> freed ?d' = {}"
    by (auto simp: release_def)
  from sa lt have "a < nxt d" by simp
  with fl rest d' have 10: "\<forall>a\<in>freed ?d'. a < nxt ?d'" by (simp add: release_def)
  from 1 2 3 4 5 6 7 8 9 10 t' show ?thesis by (simp add: dict_inv_def)
qed

lemma apply_op_inv: "dict_inv d \<Longrightarrow> dict_inv (apply_op d x)"
  by (cases x) (simp_all add: insert_dict_inv remove_dict_inv)

lemma run_snoc: "run (xs @ [x]) d = apply_op (run xs d) x"
  by (simp add: run_def)

lemma run_inv: "dict_inv d \<Longrightarrow> dict_inv (run xs d)"
  by (induction xs rule: rev_induct) (simp_all add: run_snoc apply_op_inv, simp add: run_def)


section \<open>Lookup and positional access in a consistent state\<close>

lemma search_dict_entries:
  assumes inv: "dict_inv d" and mem: "(ks, v) \<in> entries d"
  shows "search_dict d ks = v \<and> contains d ks"
proof -
  let ?t = "iRoot d"
  let ?p = "search_node (crc ks) ?t ks"
  from inv have b: "bst ?t" and keyed: "\<forall>c\<in>set (contents ?t). c_key c = crc (c_keystr c)"
    and dk: "distinct (map c_keystr (contents ?t))"
    by (simp_all add: dict_inv_def)
  from mem obtain c where c: "c \<in> set (contents ?t)" "c_keystr c = ks" "c_valstr c = v"
    by (auto simp: entries_def)
  with keyed have "c = (crc ks, ks, v)" by (cases c) auto
  with c have m: "(crc ks, ks, v) \<in> set (contents ?t)" by simp
  from search_node_complete [OF b m] have nn: "?p \<noteq> Null" .
  from search_node_found [OF refl nn] have "(crc ks, ks, valstr ?p) \<in> set (contents ?t)" by simp
  from distinct_keystr_value [OF dk m this] nn show ?thesis
    by (simp add: search_dict_eq contains_eq)
qed

lemma search_dict_absent:
  assumes "ks \<notin> fst ` entries d"
  shows "search_dict d ks = [] \<and> \<not> contains d ks"
proof -
  let ?p = "search_node (crc ks) (iRoot d) ks"
  have "?p = Null"
  proof (rule ccontr)
    assume nn: "?p \<noteq> Null"
    from search_node_found [OF refl nn] have "(crc ks, ks, valstr ?p) \<in> set (contents (iRoot d))"
      by simp
    then have "(ks, valstr ?p) \<in> entries d" by (force simp: entries_def)
    with assms show False by force
  qed
  then show ?thesis by (simp add: search_dict_eq contains_eq)
qed

lemma finite_entries: "finite (entries d)"
  by (simp add: entries_def)

lemma node_at_Null: "a \<notin> set (addrs t) \<Longrightarrow> node_at t a = Null"
  by (induction t) auto

lemma node_at_item:
  "distinct (addrs t) \<Longrightarrow> (a, k, ks, v) \<in> set (items t) \<Longrightarrow>
   node_at t a \<noteq> Null \<and> key (node_at t a) = k \<and> keystr (node_at t a) = ks \<and>
   valstr (node_at t a) = v"
proof (induction t)
  case Null
  then show ?case by simp
next
  case (Node a0 k0 ks0 vs0 l r)
  from Node.prems(1) have dl: "distinct (addrs l)" and dr: "distinct (addrs r)"
    and nl: "a0 \<notin> set (addrs l)" and nr: "a0 \<notin> set (addrs r)"
    and disj: "set (addrs l) \<inter> set (addrs r) = {}" by auto
  from Node.prems(2) consider "(a, k, ks, v) \<in> set (items l)" | "(a, k, ks, v) = (a0, k0, ks0, vs0)"
    | "(a, k, ks, v) \<in> set (items r)" by auto
  then show ?case
  proof cases
    case 1
    then have "a \<in> set (addrs l)" by (metis fst_conv imageI map_fst_items set_map)
    with nl have "a \<noteq> a0" by auto
    with Node.IH(1) [OF dl 1] show ?thesis by simp
  next
    case 2
    then show ?thesis by simp
  next
    case 3
    then have "a \<in> set (addrs r)" by (metis fst_conv imageI map_fst_items set_map)
    with nr disj have "a \<noteq> a0" "a \<notin> set (addrs l)" by auto
    with Node.IH(2) [OF dr 3] node_at_Null [of a l] show ?thesis by simp
  qed
qed

lemma map_the_map_of:
  "distinct (map fst xs) \<Longrightarrow> map (\<lambda>a. the (map_of xs a)) (map fst xs) = map snd xs"
proof (induction xs)
  case Nil
  then show ?case by simp
next
  case (Cons x xs)
  then have "map (\<lambda>a. the (map_of (x # xs) a)) (map fst xs) = map (\<lambda>a. the (map_of xs a)) (map fst xs)"
    by (intro map_cong) (auto simp: image_iff)
  with Cons show ?case by (cases x) simp
qed

lemma positional_access:
  assumes inv: "dict_inv d" and i: "i < length (Q d)"
  shows "key_i d i = Some (c_keystr (the (map_of (items (iRoot d)) (Q d ! i)))) \<and>
    value_i d i = Some (c_valstr (the (map_of (items (iRoot d)) (Q d ! i))))"
proof -
  let ?t = "iRoot d" and ?a = "Q d ! i"
  from inv have da: "distinct (addrs ?t)" and sq: "set (Q d) = set (addrs ?t)"
    by (simp_all add: dict_inv_def)
  from i sq have "?a \<in> set (addrs ?t)" by (metis nth_mem)
  then have "?a \<in> fst ` set (items ?t)" by (metis map_fst_items set_map)
  then obtain k ks v where m: "(?a, k, ks, v) \<in> set (items ?t)" by force
  from da have "distinct (map fst (items ?t))" by simp
  with m have mo: "map_of (items ?t) ?a = Some (k, ks, v)" by simp
  from node_at_item [OF da m] obtain a' l r where "node_at ?t ?a = Node a' k ks v l r"
    by (cases "node_at ?t ?a") auto
  with mo i show ?thesis by (simp add: key_i_eq value_i_eq NodeArray_get_def)
qed

lemma size_loop_sum:
  assumes "\<forall>j. i \<le> j \<and> j < ct \<longrightarrow> key_i d j = Some (kf j) \<and> value_i d j = Some (vf j)"
  shows "size_loop d ct i sz =
    (Some (sz + (\<Sum>j\<leftarrow>[i..<ct]. length (kf j) + length (vf j) + 2)), d)"
  using assms
proof (induction d ct i sz rule: size_loop.induct)
  case (1 d ct i sz)
  show ?case
  proof (cases "i < ct")
    case False
    then show ?thesis by (simp add: size_loop.simps)
  next
    case True
    with 1(2) have kv: "key_i d i = Some (kf i)" "value_i d i = Some (vf i)" by simp_all
    from 1(2) have "\<forall>j. i + 1 \<le> j \<and> j < ct \<longrightarrow> key_i d j = Some (kf j) \<and> value_i d j = Some (vf j)"
      by simp
    from 1(1) [OF True, of "Some (kf i)" d "kf i" "Some (vf i)" d "vf i"] kv this
    have "size_loop d ct (i + 1) (sz + length (kf i) + length (vf i) + 2) =
      (Some (sz + length (kf i) + length (vf i) + 2 +
         (\<Sum>j\<leftarrow>[i + 1..<ct]. length (kf j) + length (vf j) + 2)), d)"
      by (simp add: key_call_frame value_call_frame)
    with True kv show ?thesis
      by (simp add: size_loop.simps [of d ct i] key_call_frame value_call_frame upt_rec [of i ct])
  qed
qed

lemma equals_loop_all:
  assumes "\<forall>j. i \<le> j \<and> j < ct \<longrightarrow> key_i d j = Some (kf j) \<and> value_i d j = Some (vf j)"
  shows "equals_loop d b ct i =
    (Some (\<forall>j. i \<le> j \<and> j < ct \<longrightarrow> vf j = search_dict b (kf j)), d, b)"
  using assms
proof (induction d b ct i rule: equals_loop.induct)
  case (1 d b ct i)
  show ?case
  proof (cases "i < ct")
    case False
    then have "\<forall>j. i \<le> j \<and> j < ct \<longrightarrow> vf j = search_dict b (kf j)" by auto
    with False show ?thesis by (simp add: equals_loop.simps)
  next
    case True
    with 1(2) have kv: "key_i d i = Some (kf i)" "value_i d i = Some (vf i)" by simp_all
    show ?thesis
    proof (cases "vf i = search_dict b (kf i)")
      case False
      with True have "\<not> (\<forall>j. i \<le> j \<and> j < ct \<longrightarrow> vf j = search_dict b (kf j))" by auto
      with False True kv show ?thesis
        by (simp add: equals_loop.simps [of d b ct i] key_call_frame value_call_frame
            search_call_frame)
    next
      case eq: True
      from 1(2) have "\<forall>j. i + 1 \<le> j \<and> j < ct \<longrightarrow> key_i d j = Some (kf j) \<and> value_i d j = Some (vf j)"
        by simp
      from 1(1) [OF True, of "Some (vf i)" d "vf i" "Some (kf i)" d "kf i" "search_dict b (kf i)" b] kv eq this
      have rec: "equals_loop d b ct (i + 1) =
        (Some (\<forall>j. i + 1 \<le> j \<and> j < ct \<longrightarrow> vf j = search_dict b (kf j)), d, b)"
        by (simp add: key_call_frame value_call_frame search_call_frame)
      have "(\<forall>j. i + 1 \<le> j \<and> j < ct \<longrightarrow> vf j = search_dict b (kf j)) \<longleftrightarrow>
        (\<forall>j. i \<le> j \<and> j < ct \<longrightarrow> vf j = search_dict b (kf j))"
      proof (intro iffI allI impI)
        fix j assume a: "\<forall>j. i + 1 \<le> j \<and> j < ct \<longrightarrow> vf j = search_dict b (kf j)"
          and j: "i \<le> j \<and> j < ct"
        show "vf j = search_dict b (kf j)"
        proof (cases "j = i")
          case True
          with eq show ?thesis by simp
        next
          case False
          with j have "i + 1 \<le> j \<and> j < ct" by simp
          with a show ?thesis by blast
        qed
      next
        fix j assume a: "\<forall>j. i \<le> j \<and> j < ct \<longrightarrow> vf j = search_dict b (kf j)"
          and j: "i + 1 \<le> j \<and> j < ct"
        then have "i \<le> j \<and> j < ct" by simp
        with a show "vf j = search_dict b (kf j)" by blast
      qed
      with rec True kv eq show ?thesis
        by (simp add: equals_loop.simps [of d b ct i] key_call_frame value_call_frame
            search_call_frame)
    qed
  qed
qed

section \<open>Single steps of the mutators\<close>

lemma addrs_skeleton: "addrs (skeleton t) = addrs t"
  by (induction t) auto

lemma insert_dict_present_step:
  assumes "contains d ks"
  shows "insert_dict d ks vs = d\<lparr>iRoot := iRoot (insert_dict d ks vs)\<rparr> \<and>
    skeleton (iRoot (insert_dict d ks vs)) = skeleton (iRoot d) \<and>
    (\<exists>cs1 cs2 v. contents (iRoot d) = cs1 @ (crc ks, ks, v) # cs2 \<and>
       contents (iRoot (insert_dict d ks vs)) = cs1 @ (crc ks, ks, vs) # cs2)"
proof -
  from assms have pres: "search_node (crc ks) (iRoot d) ks \<noteq> Null" by (simp add: contains_eq)
  then have nn: "iRoot d \<noteq> Null" by auto
  obtain t' d' where ins: "insert_node (crc ks) ks vs (iRoot d) d = (t', d')"
    by (cases "insert_node (crc ks) ks vs (iRoot d) d")
  from insert_node_present [OF nn ins pres] have d': "d' = d" and sk: "skeleton t' = skeleton (iRoot d)"
    by simp_all
  from ins nn d' have eq: "insert_dict d ks vs = d\<lparr>iRoot := t'\<rparr>" by (simp add: insert_dict_def)
  from insert_node_present_items [OF nn ins pres] obtain xs ys a v where
    it: "items (iRoot d) = xs @ (a, crc ks, ks, v) # ys" and it': "items t' = xs @ (a, crc ks, ks, vs) # ys"
    by blast
  have "contents (iRoot d) = map snd xs @ (crc ks, ks, v) # map snd ys"
    using arg_cong [OF it, of "map snd"] by simp
  moreover have "contents t' = map snd xs @ (crc ks, ks, vs) # map snd ys"
    using arg_cong [OF it', of "map snd"] by simp
  ultimately show ?thesis using eq sk by auto
qed

lemma insert_dict_absent_step:
  assumes "\<not> contains d ks"
  shows "Q (insert_dict d ks vs) = NodeArray_append (Q d) (nxt d) \<and>
    mset (addrs (iRoot (insert_dict d ks vs))) = add_mset (nxt d) (mset (addrs (iRoot d)))"
proof -
  let ?t = "iRoot d" and ?d' = "insert_dict d ks vs"
  from assms have abs: "search_node (crc ks) ?t ks = Null" by (simp add: contains_eq)
  have "mset (items (iRoot ?d')) = add_mset (nxt d, crc ks, ks, vs) (mset (items ?t)) \<and>
    Q ?d' = NodeArray_append (Q d) (nxt d)"
  proof (cases "?t = Null")
    case True
    then show ?thesis by (simp add: insert_dict_def new_node_def)
  next
    case False
    obtain t' d' where ins: "insert_node (crc ks) ks vs ?t d = (t', d')"
      by (cases "insert_node (crc ks) ks vs ?t d")
    from insert_node_absent [OF False ins abs] False ins show ?thesis
      by (simp add: insert_dict_def)
  qed
  with mset_add_map [of "items (iRoot ?d')" _ "items ?t" fst] show ?thesis by simp
qed

lemma remove_dict_present_step:
  assumes inv: "dict_inv d" and "contains d ks"
  shows "\<exists>a. a \<in> set (Q d) \<and> Q (remove_dict d ks) = NodeArray_remove (Q d) a \<and>
    freed (remove_dict d ks) = insert a (freed d) \<and>
    mset (addrs (iRoot d)) = add_mset a (mset (addrs (iRoot (remove_dict d ks))))"
proof -
  let ?t = "iRoot d" and ?d' = "remove_dict d ks"
  let ?p = "search_node (crc ks) ?t ks"
  from assms have nn: "?p \<noteq> Null" by (simp add: contains_eq)
  from search_node_found [OF refl nn] have kp: "key ?p = crc ks"
    and mem: "(crc ks, ks, valstr ?p) \<in> set (contents ?t)" by simp_all
  obtain t' d' where del: "deleteNode ?t (crc ks) ks d = (t', d')"
    by (cases "deleteNode ?t (crc ks) ks d")
  with nn kp have t': "iRoot ?d' = t'" and rest: "Q ?d' = Q d'" "freed ?d' = freed d'"
    by (simp_all add: remove_dict_def)
  from inv have b: "bst ?t" and dk: "distinct (map c_keystr (contents ?t))"
    and sq: "set (Q d) = set (addrs ?t)"
    by (simp_all add: dict_inv_def)
  from deleteNode_contents [OF del b dk mem]
  have "mset (contents ?t) = add_mset (crc ks, ks, valstr ?p) (mset (contents t'))" .
  then have "length (contents ?t) = Suc (length (contents t'))"
    by (metis size_add_mset size_mset)
  then have "addrs t' \<noteq> addrs ?t"
    by (metis length_addrs_contents n_not_Suc_n)
  with deleteNode_addrs [OF del] obtain a where
    ma: "mset (addrs ?t) = add_mset a (mset (addrs t'))" and d': "d' = release a d" by blast
  from mset_add_set [OF ma] sq have "a \<in> set (Q d)" by simp
  with ma d' rest t' show ?thesis by (auto simp: release_def)
qed


section \<open>Concrete evaluations\<close>

lemmas crc_eval = crc_def crc_round_def table_def table_loop.simps table_round_def

lemma crc_a: "crc ''a'' = 0xE8B7BE43" by (simp add: crc_eval)
lemma crc_b: "crc ''b'' = 0x71BEEFF9" by (simp add: crc_eval)
lemma crc_c: "crc ''c'' = 0x06B9DF6F" by (simp add: crc_eval)
lemma crc_p: "crc ''p'' = 0x82079EB1" by (simp add: crc_eval)
lemma crc_y: "crc ''y'' = 0xFBDB2615" by (simp add: crc_eval)
lemma crc_xx: "crc ''xx'' = 0xF8E1180F" by (simp add: crc_eval)
lemma crc_collision1: "crc ''xqavwsv'' = 0x8459BE02" by (simp add: crc_eval)
lemma crc_collision2: "crc ''klcogqy'' = 0x8459BE02" by (simp add: crc_eval)

lemmas dict_eval = run_def insert_dict_def remove_dict_def new_node_def release_def
  NodeArray_new_def NodeArray_append_def NodeArray_remove_def NodeArray_get_def NodeArray_count_def
  Dictionary_def search_dict_eq contains_eq count_dict_eq key_i_eq value_i_eq destroy_def
  size_dict_unfold size_loop_unfold equals_unfold equals_loop_unfold
  Let_def crc_a crc_b crc_c crc_p crc_y crc_xx crc_collision1 crc_collision2


section \<open>Order of the subtrees\<close>

lemma contents_nodes: "contents t = map (\<lambda>n. (key n, keystr n, valstr n)) (nodes t)"
  by (induction t) auto

lemma bst_nodes: "bst t \<Longrightarrow> N \<in> set (nodes t) \<Longrightarrow> N \<noteq> Null \<and> bst N"
  by (induction t) auto

lemma left_subtree_strict:
  assumes "bst t" "N \<in> set (nodes t)" "m \<in> set (nodes (left N))"
  shows "key m < key N"
proof -
  from bst_nodes [OF assms(1,2)] obtain a k ks vs l r where N: "N = Node a k ks vs l r" and b: "bst N"
    by (cases N) auto
  from assms(3) N have "(key m, keystr m, valstr m) \<in> set (contents l)"
    by (auto simp: contents_nodes)
  from bst_left [OF b [unfolded N] this] N show ?thesis by simp
qed

section \<open>Size and equality in a consistent state\<close>

lemma map_nth_fun: "map (\<lambda>j. h (xs ! j)) [0..<length xs] = map h xs"
proof -
  have "map (\<lambda>j. h (xs ! j)) [0..<length xs] = map h (map ((!) xs) [0..<length xs])" by simp
  then show ?thesis by (simp only: map_nth)
qed

lemma sum_list_perm_distinct:
  fixes f :: "'a \<Rightarrow> nat"
  assumes "distinct xs" "distinct ys" "set xs = set ys"
  shows "sum_list (map f xs) = sum_list (map f ys)"
  using assms by (simp add: sum_list_distinct_conv_sum_set)

lemma size_dict_contents:
  assumes inv: "dict_inv d"
  shows "size_dict d =
    Some (\<Sum>c\<leftarrow>contents (iRoot d). length (c_keystr c) + length (c_valstr c) + 2)"
proof -
  let ?t = "iRoot d"
  let ?g = "\<lambda>a. the (map_of (items ?t) a)"
  let ?f = "\<lambda>c. length (c_keystr c) + length (c_valstr c) + 2"
  from inv have da: "distinct (addrs ?t)" and dq: "distinct (Q d)" and sq: "set (Q d) = set (addrs ?t)"
    by (simp_all add: dict_inv_def)
  have "\<forall>j. 0 \<le> j \<and> j < length (Q d) \<longrightarrow>
    key_i d j = Some (c_keystr (?g (Q d ! j))) \<and> value_i d j = Some (c_valstr (?g (Q d ! j)))"
    using positional_access [OF inv] by simp
  from size_loop_sum [OF this, of 0]
  have "size_dict d = Some (\<Sum>j\<leftarrow>[0..<length (Q d)]. ?f (?g (Q d ! j)))"
    by (simp add: size_dict_def size_call_def count_call_def NodeArray_count_def)
  also have "(\<Sum>j\<leftarrow>[0..<length (Q d)]. ?f (?g (Q d ! j))) = sum_list (map (\<lambda>a. ?f (?g a)) (Q d))"
    by (simp only: map_nth_fun [of "\<lambda>a. ?f (?g a)" "Q d"])
  also have "\<dots> = sum_list (map (\<lambda>a. ?f (?g a)) (addrs ?t))"
    by (rule sum_list_perm_distinct [OF dq da sq])
  also have "\<dots> = sum_list (map ?f (map ?g (map fst (items ?t))))"
    by (simp add: comp_def)
  also have "map ?g (map fst (items ?t)) = contents ?t"
    using map_the_map_of [of "items ?t"] da by simp
  finally show ?thesis .
qed

lemma distinct_entry_list:
  assumes "distinct (map c_keystr cs)"
  shows "distinct (map (\<lambda>c. (c_keystr c, c_valstr c)) cs)"
proof -
  have "map c_keystr cs = map fst (map (\<lambda>c. (c_keystr c, c_valstr c)) cs)" by simp
  with assms show ?thesis by (metis distinct_map)
qed

lemma size_dict_entries:
  assumes inv: "dict_inv d"
  shows "size_dict d = Some (\<Sum>e\<in>entries d. length (fst e) + length (snd e) + 2)"
proof -
  let ?es = "map (\<lambda>c. (c_keystr c, c_valstr c)) (contents (iRoot d))"
  from inv have "distinct (map c_keystr (contents (iRoot d)))" by (simp add: dict_inv_def)
  then have de: "distinct ?es" by (rule distinct_entry_list)
  have "(\<Sum>c\<leftarrow>contents (iRoot d). length (c_keystr c) + length (c_valstr c) + 2) =
    sum_list (map (\<lambda>e. length (fst e) + length (snd e) + 2) ?es)"
    by (simp add: comp_def)
  also have "\<dots> = (\<Sum>e\<in>set ?es. length (fst e) + length (snd e) + 2)"
    by (rule sum_list_distinct_conv_sum_set [OF de])
  also have "set ?es = entries d" by (simp add: entries_def)
  finally show ?thesis using size_dict_contents [OF inv] by simp
qed

lemma count_dict_entries:
  assumes inv: "dict_inv d"
  shows "count_dict d = card (entries d)"
proof -
  let ?t = "iRoot d"
  let ?es = "map (\<lambda>c. (c_keystr c, c_valstr c)) (contents ?t)"
  from inv have da: "distinct (addrs ?t)" and dq: "distinct (Q d)" and sq: "set (Q d) = set (addrs ?t)"
    and dk: "distinct (map c_keystr (contents ?t))"
    by (simp_all add: dict_inv_def)
  have "length (Q d) = card (set (Q d))" using dq by (simp add: distinct_card)
  also have "\<dots> = length (addrs ?t)" using sq da by (simp add: distinct_card)
  also have "\<dots> = length ?es" by (simp add: length_addrs_contents)
  also have "\<dots> = card (set ?es)"
    using distinct_card [OF distinct_entry_list [OF dk]] by simp
  also have "set ?es = entries d" by (simp add: entries_def)
  finally show ?thesis by (simp add: count_dict_eq NodeArray_count_def)
qed

lemma equals_entries:
  assumes inva: "dict_inv d" and invb: "dict_inv b"
  shows "equals d b = Some (size_dict b = size_dict d \<and> count_dict b = count_dict d \<and>
    (\<forall>e\<in>entries d. snd e = search_dict b (fst e)))"
proof -
  let ?t = "iRoot d"
  let ?g = "\<lambda>a. the (map_of (items ?t) a)"
  from inva have da: "distinct (addrs ?t)" and sq: "set (Q d) = set (addrs ?t)"
    by (simp_all add: dict_inv_def)
  have "\<forall>j. 0 \<le> j \<and> j < length (Q d) \<longrightarrow>
    key_i d j = Some (c_keystr (?g (Q d ! j))) \<and> value_i d j = Some (c_valstr (?g (Q d ! j)))"
    using positional_access [OF inva] by simp
  from equals_loop_all [OF this, of b]
  have loop: "fst (equals_loop d b (length (Q d)) 0) =
    Some (\<forall>j. j < length (Q d) \<longrightarrow> c_valstr (?g (Q d ! j)) = search_dict b (c_keystr (?g (Q d ! j))))"
    by simp
  have "(\<forall>j. j < length (Q d) \<longrightarrow> c_valstr (?g (Q d ! j)) = search_dict b (c_keystr (?g (Q d ! j)))) \<longleftrightarrow>
    (\<forall>a\<in>set (Q d). c_valstr (?g a) = search_dict b (c_keystr (?g a)))"
    by (metis in_set_conv_nth)
  also have "\<dots> \<longleftrightarrow> (\<forall>c\<in>set (map ?g (map fst (items ?t))). c_valstr c = search_dict b (c_keystr c))"
    using sq by simp
  also have "map ?g (map fst (items ?t)) = contents ?t"
    using map_the_map_of [of "items ?t"] da by simp
  also have "(\<forall>c\<in>set (contents ?t). c_valstr c = search_dict b (c_keystr c)) \<longleftrightarrow>
    (\<forall>e\<in>entries d. snd e = search_dict b (fst e))"
    by (simp add: entries_def)
  finally have all: "(\<forall>j. j < length (Q d) \<longrightarrow>
      c_valstr (?g (Q d ! j)) = search_dict b (c_keystr (?g (Q d ! j)))) \<longleftrightarrow>
    (\<forall>e\<in>entries d. snd e = search_dict b (fst e))" .
  from size_dict_entries [OF inva] size_dict_entries [OF invb] loop all show ?thesis
    by (auto simp: equals_def equals_call_def size_call_frame count_call_def count_dict_eq
        NodeArray_count_def)
qed


lemma entries_inserts:
  "inj_on fst (set ps) \<Longrightarrow>
   dict_inv (run (map (\<lambda>(k, v). Insert k v) ps) (Dictionary n)) \<and>
   entries (run (map (\<lambda>(k, v). Insert k v) ps) (Dictionary n)) = set ps"
proof (induction ps rule: rev_induct)
  case Nil
  then show ?case by (simp add: run_def dict_inv_Dictionary entries_Dictionary)
next
  case (snoc p ps)
  obtain k v where p: "p = (k, v)" by (cases p)
  let ?d = "run (map (\<lambda>(k, v). Insert k v) ps) (Dictionary n)"
  from snoc.prems have "inj_on fst (set ps)" by (simp add: inj_on_def)
  with snoc.IH have inv: "dict_inv ?d" and e: "entries ?d = set ps" by simp_all
  have eqk: "e = (k, v)" if "e \<in> set ps" "fst e = k" for e
    using inj_onD [OF snoc.prems, of e "(k, v)"] that p by simp
  have "insert (k, v) {e \<in> set ps. fst e \<noteq> k} = insert (k, v) (set ps)"
    using eqk by blast
  with insert_dict_inv [OF inv, of k v] e
  have "dict_inv (insert_dict ?d k v)" "entries (insert_dict ?d k v) = insert (k, v) (set ps)"
    by simp_all
  with p show ?case by (simp add: run_snoc)
qed

lemma entries_positional:
  assumes inv: "dict_inv d" and e: "e \<in> entries d"
  shows "\<exists>i<count_dict d. key_i d i = Some (fst e) \<and> value_i d i = Some (snd e)"
proof -
  let ?t = "iRoot d"
  from e obtain c where c: "c \<in> set (contents ?t)" and ec: "e = (c_keystr c, c_valstr c)"
    by (auto simp: entries_def)
  from c have "c \<in> snd ` set (items ?t)" by (metis map_snd_items set_map)
  then obtain a where m: "(a, c) \<in> set (items ?t)" by force
  from inv have da: "distinct (map fst (items ?t))" and sq: "set (Q d) = set (addrs ?t)"
    by (simp_all add: dict_inv_def)
  from m have "a \<in> set (addrs ?t)" by (metis fst_conv imageI map_fst_items set_map)
  with sq obtain i where i: "i < length (Q d)" "Q d ! i = a" by (metis in_set_conv_nth)
  from da m have "map_of (items ?t) a = Some c" by simp
  with positional_access [OF inv i(1)] i ec show ?thesis
    by (auto simp: count_dict_eq NodeArray_count_def)
qed

lemma equals_same_entries:
  assumes "dict_inv d" "dict_inv b" "entries d = entries b"
  shows "equals d b = Some True"
proof -
  have "\<forall>e\<in>entries d. snd e = search_dict b (fst e)"
    using search_dict_entries [OF assms(2)] assms(3) by force
  with equals_entries [OF assms(1,2)] size_dict_entries [OF assms(1)] size_dict_entries [OF assms(2)]
    count_dict_entries [OF assms(1)] count_dict_entries [OF assms(2)] assms(3)
  show ?thesis by simp
qed

lemma equals_symmetric_nonempty:
  assumes inva: "dict_inv d" and invb: "dict_inv b" and eq: "equals d b = Some True"
    and ne: "\<forall>i<count_dict d. value_i d i \<noteq> Some ''''"
  shows "equals b d = Some True"
proof -
  from eq equals_entries [OF inva invb]
  have cnt: "count_dict b = count_dict d" and all: "\<forall>e\<in>entries d. snd e = search_dict b (fst e)"
    by simp_all
  have "entries d \<subseteq> entries b"
  proof
    fix e assume e: "e \<in> entries d"
    from entries_positional [OF inva e] ne have "snd e \<noteq> ''''" by force
    with all e have s: "search_dict b (fst e) \<noteq> ''''" "search_dict b (fst e) = snd e" by auto
    from s(1) search_dict_absent [of "fst e" b] have "fst e \<in> fst ` entries b" by blast
    then obtain v where v: "(fst e, v) \<in> entries b" by force
    from search_dict_entries [OF invb v] s(2) have "v = snd e" by simp
    with v show "e \<in> entries b" by simp
  qed
  moreover from cnt count_dict_entries [OF inva] count_dict_entries [OF invb]
  have "card (entries d) = card (entries b)" by simp
  ultimately have "entries d = entries b"
    using finite_entries [of b] by (simp add: card_subset_eq)
  then show ?thesis using equals_same_entries [OF invb inva] by simp
qed

lemma entries_untouched:
  "dict_inv d \<Longrightarrow> (k, v) \<in> entries d \<Longrightarrow>
   \<forall>x\<in>set ys. \<exists>k' v'. x = Insert k' v' \<and> k' \<noteq> k \<Longrightarrow>
   (k, v) \<in> entries (run ys d)"
proof (induction ys rule: rev_induct)
  case Nil
  then show ?case by (simp add: run_def)
next
  case (snoc y ys)
  from snoc.prems(3) obtain k' v' where y: "y = Insert k' v'" "k' \<noteq> k" by auto
  from snoc have m: "(k, v) \<in> entries (run ys d)" by simp
  from run_inv [OF snoc.prems(1)] have "dict_inv (run ys d)" .
  from insert_dict_inv [OF this, of k' v'] m y show ?case by (simp add: run_snoc)
qed

lemma stored_pair:
  assumes "dict_inv d" "(k, v) \<in> entries d"
  shows "search_dict d k = v" "contains d k"
  using search_dict_entries [OF assms] by simp_all

lemma removed_key:
  assumes "dict_inv d"
  shows "\<not> contains (remove_dict d k) k"
proof -
  from remove_dict_inv [OF assms, of k] have "k \<notin> fst ` entries (remove_dict d k)" by auto
  from search_dict_absent [OF this] show ?thesis by simp
qed

lemma kept_pair:
  assumes "dict_inv d" "(k', v) \<in> entries d" "k' \<noteq> k"
  shows "(k', v) \<in> entries (remove_dict d k)"
  using remove_dict_inv [OF assms(1), of k] assms(2,3) by simp

lemma two_keys:
  assumes ne: "k1 \<noteq> k2"
    and ys: "\<forall>x\<in>set ys. \<exists>k v. x = Insert k v \<and> k \<noteq> k1 \<and> k \<noteq> k2"
    and zs: "\<forall>x\<in>set zs. \<exists>k v. x = Insert k v \<and> k \<noteq> k1 \<and> k \<noteq> k2"
    and S: "S = run (xs @ [Insert k1 v1] @ ys @ [Insert k2 v2] @ zs) (Dictionary n)"
  shows "search_dict S k1 = v1 \<and> contains S k1 \<and> search_dict S k2 = v2 \<and> contains S k2 \<and>
    search_dict (remove_dict S k1) k2 = v2 \<and> contains (remove_dict S k1) k2 \<and>
    \<not> contains (remove_dict S k1) k1 \<and>
    search_dict (remove_dict S k2) k1 = v1 \<and> contains (remove_dict S k2) k1 \<and>
    \<not> contains (remove_dict S k2) k2 \<and>
    \<not> contains (remove_dict (remove_dict S k1) k2) k2 \<and>
    \<not> contains (remove_dict (remove_dict S k2) k1) k1"
proof -
  let ?d0 = "run xs (Dictionary n)"
  let ?d1 = "insert_dict ?d0 k1 v1"
  let ?d2 = "run ys ?d1"
  let ?d3 = "insert_dict ?d2 k2 v2"
  have S': "S = run zs ?d3" by (simp add: S run_def)
  have i0: "dict_inv ?d0" by (rule run_inv [OF dict_inv_Dictionary])
  from insert_dict_inv [OF i0, of k1 v1] have i1: "dict_inv ?d1" and e1: "(k1, v1) \<in> entries ?d1"
    by simp_all
  from ys have ys1: "\<forall>x\<in>set ys. \<exists>k' v'. x = Insert k' v' \<and> k' \<noteq> k1" by blast
  from zs have zs1: "\<forall>x\<in>set zs. \<exists>k' v'. x = Insert k' v' \<and> k' \<noteq> k1"
    and zs2: "\<forall>x\<in>set zs. \<exists>k' v'. x = Insert k' v' \<and> k' \<noteq> k2" by blast+
  have i2: "dict_inv ?d2" by (rule run_inv [OF i1])
  have e2: "(k1, v1) \<in> entries ?d2" by (rule entries_untouched [OF i1 e1 ys1])
  from insert_dict_inv [OF i2, of k2 v2] e2 ne
  have i3: "dict_inv ?d3" and e3: "(k1, v1) \<in> entries ?d3" "(k2, v2) \<in> entries ?d3"
    by simp_all
  have iS: "dict_inv S" unfolding S' by (rule run_inv [OF i3])
  have eS: "(k1, v1) \<in> entries S" "(k2, v2) \<in> entries S"
    unfolding S' by (rule entries_untouched [OF i3 e3(1) zs1], rule entries_untouched [OF i3 e3(2) zs2])
  from remove_dict_inv [OF iS] have iR1: "dict_inv (remove_dict S k1)"
    and iR2: "dict_inv (remove_dict S k2)" by simp_all
  from ne have ne': "k2 \<noteq> k1" by simp
  note a = stored_pair [OF iS eS(1)] stored_pair [OF iS eS(2)]
  note b = stored_pair [OF iR1 kept_pair [OF iS eS(2) ne']] removed_key [OF iS, of k1]
  note c = stored_pair [OF iR2 kept_pair [OF iS eS(1) ne]] removed_key [OF iS, of k2]
  note d = removed_key [OF iR1, of k2] removed_key [OF iR2, of k1]
  from a b c d show ?thesis by simp
qed

section \<open>Insertion followed by lookup\<close>

lemma search_node_insert_node:
  "t \<noteq> Null \<Longrightarrow> insert_node k ks vs t d = (t', d') \<Longrightarrow>
   search_node k t' ks \<noteq> Null \<and> valstr (search_node k t' ks) = vs"
proof (induction k ks vs t d arbitrary: t' d' rule: insert_node.induct)
  case (1 k ks vs a lk lks lvs l r d)
  then show ?case
    by (auto simp: new_node_def split: if_splits prod.splits)
next
  case (2 a b c e)
  then show ?case by simp
qed

text \<open>
  C1. In every state \<open>d\<close>, for every key string \<open>k\<close> and value string \<open>v\<close>, the lookup
  of \<open>k\<close> immediately after \<open>insert(k, v)\<close> returns \<open>v\<close>.
\<close>

theorem insert_then_search: "search_dict (insert_dict d k v) k = v"
proof (cases "iRoot d = Null")
  case True
  then show ?thesis
    by (simp add: search_dict_eq insert_dict_def new_node_def)
next
  case False
  obtain t' d' where ins: "insert_node (crc k) k v (iRoot d) d = (t', d')"
    by (cases "insert_node (crc k) k v (iRoot d) d")
  from search_node_insert_node [OF False ins] False ins show ?thesis
    by (simp add: search_dict_eq insert_dict_def)
qed

section \<open>Insertion of a stored key\<close>

text \<open>
  C7. In every state \<open>d\<close> in which the key \<open>k\<close> is stored, \<open>insert(k, v)\<close> changes nothing
  but the tree, and in the tree nothing but the value of the node of \<open>k\<close>: the lookup of
  \<open>k\<close> returns \<open>v\<close>, the index array, the allocator and the count are as before (no node
  is created), the tree has the same nodes, keys and links, and its contents differ in
  the value of that one node only.
\<close>

theorem insert_stored_key_overwrites:
  "contains d k \<Longrightarrow>
   search_dict (insert_dict d k v) k = v \<and>
   insert_dict d k v = d\<lparr>iRoot := iRoot (insert_dict d k v)\<rparr> \<and>
   Q (insert_dict d k v) = Q d \<and>
   nxt (insert_dict d k v) = nxt d \<and>
   count_dict (insert_dict d k v) = count_dict d \<and>
   skeleton (iRoot (insert_dict d k v)) = skeleton (iRoot d) \<and>
   addrs (iRoot (insert_dict d k v)) = addrs (iRoot d) \<and>
   (\<exists>cs1 cs2 v0. contents (iRoot d) = cs1 @ (crc k, k, v0) # cs2 \<and>
      contents (iRoot (insert_dict d k v)) = cs1 @ (crc k, k, v) # cs2)"
proof -
  assume c: "contains d k"
  let ?d' = "insert_dict d k v"
  from insert_dict_present_step [OF c, of v]
  have eq: "?d' = d\<lparr>iRoot := iRoot ?d'\<rparr>"
    and sk: "skeleton (iRoot ?d') = skeleton (iRoot d)"
    and ct: "\<exists>cs1 cs2 v0. contents (iRoot d) = cs1 @ (crc k, k, v0) # cs2 \<and>
      contents (iRoot ?d') = cs1 @ (crc k, k, v) # cs2"
    by simp_all
  from arg_cong [OF eq, of Q] have q: "Q ?d' = Q d" by simp
  from arg_cong [OF eq, of nxt] have n: "nxt ?d' = nxt d" by simp
  from sk have "addrs (skeleton (iRoot ?d')) = addrs (skeleton (iRoot d))" by simp
  then have a: "addrs (iRoot ?d') = addrs (iRoot d)" by (simp add: addrs_skeleton)
  from q have cnt: "count_dict ?d' = count_dict d" by (simp add: count_dict_eq)
  have s: "search_dict ?d' k = v"
  proof (cases "iRoot d = Null")
    case True
    then show ?thesis by (simp add: search_dict_eq insert_dict_def new_node_def)
  next
    case False
    obtain t' d' where ins: "insert_node (crc k) k v (iRoot d) d = (t', d')"
      by (cases "insert_node (crc k) k v (iRoot d) d")
    from search_node_insert_node [OF False ins] False ins show ?thesis
      by (simp add: search_dict_eq insert_dict_def)
  qed
  from s eq q n cnt sk a ct show ?thesis by blast
qed

theorem insert_stored_key_overwrites_witness:
  "contains (insert_dict (Dictionary 10) ''a'' ''1'') ''a'' \<and>
   search_dict (insert_dict (insert_dict (Dictionary 10) ''a'' ''1'') ''a'' ''2'') ''a'' = ''2'' \<and>
   Q (insert_dict (insert_dict (Dictionary 10) ''a'' ''1'') ''a'' ''2'') = [0] \<and>
   count_dict (insert_dict (insert_dict (Dictionary 10) ''a'' ''1'') ''a'' ''2'') = 1 \<and>
   skeleton (iRoot (insert_dict (insert_dict (Dictionary 10) ''a'' ''1'') ''a'' ''2'')) =
     Node 0 (crc ''a'') ''a'' [] Null Null"
proof -
  have h: "contains (insert_dict (Dictionary 10) ''a'' ''1'') ''a''"
    by (simp add: dict_eval)
  have "Q (insert_dict (Dictionary 10) ''a'' ''1'') = [0]"
    "count_dict (insert_dict (Dictionary 10) ''a'' ''1'') = 1"
    "skeleton (iRoot (insert_dict (Dictionary 10) ''a'' ''1'')) = Node 0 (crc ''a'') ''a'' [] Null Null"
    by (simp_all add: dict_eval)
  with h insert_stored_key_overwrites [OF h, of "''2''"] show ?thesis by simp
qed

section \<open>Misses\<close>

text \<open>
  C8. In every state, the lookup of a key that is not stored returns the empty string and
  its removal leaves the state as it is; \<open>key(i)\<close> and \<open>value(i)\<close> with \<open>i\<close> at or beyond
  \<open>count()\<close> return the empty string.
\<close>

theorem misses_are_harmless:
  "(\<not> contains d k \<longrightarrow> search_dict d k = '''' \<and> remove_dict d k = d) \<and>
   (count_dict d \<le> i \<longrightarrow> key_i d i = Some '''' \<and> value_i d i = Some '''')"
  by (simp add: contains_eq search_dict_eq remove_dict_def count_dict_eq key_i_eq value_i_eq
      NodeArray_count_def NodeArray_get_def)

theorem misses_are_harmless_witness:
  "\<not> contains (insert_dict (Dictionary 10) ''a'' ''1'') ''b'' \<and>
   search_dict (insert_dict (Dictionary 10) ''a'' ''1'') ''b'' = '''' \<and>
   remove_dict (insert_dict (Dictionary 10) ''a'' ''1'') ''b'' = insert_dict (Dictionary 10) ''a'' ''1'' \<and>
   count_dict (insert_dict (Dictionary 10) ''a'' ''1'') \<le> 1 \<and>
   key_i (insert_dict (Dictionary 10) ''a'' ''1'') 1 = Some '''' \<and>
   value_i (insert_dict (Dictionary 10) ''a'' ''1'') 1 = Some ''''"
proof -
  have h1: "\<not> contains (insert_dict (Dictionary 10) ''a'' ''1'') ''b''"
    by (simp add: dict_eval)
  have h2: "count_dict (insert_dict (Dictionary 10) ''a'' ''1'') \<le> 1"
    by (simp add: dict_eval)
  from h1 h2 misses_are_harmless [of "insert_dict (Dictionary 10) ''a'' ''1''" "''b''" 1]
  show ?thesis by blast
qed

section \<open>Reset of the container\<close>

text \<open>
  C3, evaluated at the state that holds the single pair (a, 1): after \<open>destroy()\<close> the count
  is 0 and the node has been released, but \<open>iRoot\<close> still holds the pointer to it.
\<close>

theorem destroy_keeps_root_pointer:
  "iRoot (destroy (insert_dict (Dictionary 10) ''a'' ''1'')) = Node 0 (crc ''a'') ''a'' ''1'' Null Null \<and>
   freed (destroy (insert_dict (Dictionary 10) ''a'' ''1'')) = {0} \<and>
   count_dict (destroy (insert_dict (Dictionary 10) ''a'' ''1'')) = 0 \<and>
   iRoot (Dictionary 10) = Null"
  by (simp add: dict_eval)

section \<open>The index array and the tree\<close>

text \<open>
  C2. After every sequence of \<open>insert\<close> and \<open>remove\<close> calls on a new container, the index
  array holds exactly the addresses of the nodes reachable from the root, each once, and
  none of them is the address of a released node.
  In such a state, the insertion of a key that is not stored appends to the array the
  address of one node, which is new and is the one node the tree gains; and the removal of
  a stored key removes from the array the address of one node, which is released and is
  the one node the tree loses.
\<close>

theorem index_array_mirrors_tree:
  "set (Q (run ops (Dictionary n))) = set (addrs (iRoot (run ops (Dictionary n)))) \<and>
   distinct (Q (run ops (Dictionary n))) \<and>
   distinct (addrs (iRoot (run ops (Dictionary n)))) \<and>
   set (Q (run ops (Dictionary n))) \<inter> freed (run ops (Dictionary n)) = {} \<and>
   (\<not> contains (run ops (Dictionary n)) k \<longrightarrow>
      (\<exists>a. a \<notin> set (addrs (iRoot (run ops (Dictionary n)))) \<and>
         Q (insert_dict (run ops (Dictionary n)) k v) = NodeArray_append (Q (run ops (Dictionary n))) a \<and>
         mset (addrs (iRoot (insert_dict (run ops (Dictionary n)) k v))) =
           add_mset a (mset (addrs (iRoot (run ops (Dictionary n))))))) \<and>
   (contains (run ops (Dictionary n)) k \<longrightarrow>
      (\<exists>a. a \<in> set (Q (run ops (Dictionary n))) \<and>
         Q (remove_dict (run ops (Dictionary n)) k) = NodeArray_remove (Q (run ops (Dictionary n))) a \<and>
         freed (remove_dict (run ops (Dictionary n)) k) = insert a (freed (run ops (Dictionary n))) \<and>
         mset (addrs (iRoot (run ops (Dictionary n)))) =
           add_mset a (mset (addrs (iRoot (remove_dict (run ops (Dictionary n)) k))))))"
proof -
  let ?d = "run ops (Dictionary n)"
  have inv: "dict_inv ?d" by (rule run_inv [OF dict_inv_Dictionary])
  then have 1: "set (Q ?d) = set (addrs (iRoot ?d))" "distinct (Q ?d)" "distinct (addrs (iRoot ?d))"
    "set (Q ?d) \<inter> freed ?d = {}"
    and lt: "\<forall>a\<in>set (addrs (iRoot ?d)). a < nxt ?d"
    by (simp_all add: dict_inv_def)
  from lt have fresh: "nxt ?d \<notin> set (addrs (iRoot ?d))" by auto
  have 2: "\<exists>a. a \<notin> set (addrs (iRoot ?d)) \<and>
         Q (insert_dict ?d k v) = NodeArray_append (Q ?d) a \<and>
         mset (addrs (iRoot (insert_dict ?d k v))) = add_mset a (mset (addrs (iRoot ?d)))"
    if "\<not> contains ?d k"
    using insert_dict_absent_step [OF that, of v] fresh by blast
  have 3: "\<exists>a. a \<in> set (Q ?d) \<and>
         Q (remove_dict ?d k) = NodeArray_remove (Q ?d) a \<and>
         freed (remove_dict ?d k) = insert a (freed ?d) \<and>
         mset (addrs (iRoot ?d)) = add_mset a (mset (addrs (iRoot (remove_dict ?d k))))"
    if "contains ?d k"
    using remove_dict_present_step [OF inv that] .
  from 1 2 3 show ?thesis by blast
qed

theorem index_array_mirrors_tree_witness:
  "\<not> contains (run [Insert ''b'' ''2''] (Dictionary 10)) ''a'' \<and>
   Q (insert_dict (run [Insert ''b'' ''2''] (Dictionary 10)) ''a'' ''1'') = [0, 1] \<and>
   addrs (iRoot (insert_dict (run [Insert ''b'' ''2''] (Dictionary 10)) ''a'' ''1'')) = [0, 1] \<and>
   contains (run [Insert ''b'' ''2''] (Dictionary 10)) ''b'' \<and>
   Q (remove_dict (run [Insert ''b'' ''2''] (Dictionary 10)) ''b'') = [] \<and>
   addrs (iRoot (remove_dict (run [Insert ''b'' ''2''] (Dictionary 10)) ''b'')) = [] \<and>
   set (Q (run [Insert ''b'' ''2''] (Dictionary 10))) =
     set (addrs (iRoot (run [Insert ''b'' ''2''] (Dictionary 10))))"
proof -
  have h1: "\<not> contains (run [Insert ''b'' ''2''] (Dictionary 10)) ''a''"
    and h2: "contains (run [Insert ''b'' ''2''] (Dictionary 10)) ''b''"
    by (simp_all add: dict_eval)
  have e: "Q (insert_dict (run [Insert ''b'' ''2''] (Dictionary 10)) ''a'' ''1'') = [0, 1]"
    "addrs (iRoot (insert_dict (run [Insert ''b'' ''2''] (Dictionary 10)) ''a'' ''1'')) = [0, 1]"
    "Q (remove_dict (run [Insert ''b'' ''2''] (Dictionary 10)) ''b'') = []"
    "addrs (iRoot (remove_dict (run [Insert ''b'' ''2''] (Dictionary 10)) ''b'')) = []"
    by (simp_all add: dict_eval)
  from index_array_mirrors_tree [of "[Insert ''b'' ''2'']" 10 "''a''" "''1''"]
  have "set (Q (run [Insert ''b'' ''2''] (Dictionary 10))) =
     set (addrs (iRoot (run [Insert ''b'' ''2''] (Dictionary 10))))" by blast
  with h1 h2 e show ?thesis by blast
qed

section \<open>Order and routing\<close>

text \<open>
  C4. In the tree reached by any sequence of \<open>insert\<close> and \<open>remove\<close> calls on a new
  container, for every node \<open>N\<close>, every node of the left subtree of \<open>N\<close> has a hash key
  that is at most the hash key of \<open>N\<close>; and with a hash key \<open>h\<close> strictly less than that
  of \<open>N\<close>, the descents of search, insert and delete at \<open>N\<close> continue in (or create) the
  left child of \<open>N\<close> and leave the right subtree as it is.
\<close>

theorem left_subtree_order_and_routing:
  "N \<in> set (nodes (iRoot (run ops (Dictionary n)))) \<Longrightarrow>
   (\<forall>m \<in> set (nodes (left N)). key m \<le> key N) \<and>
   (\<forall>h s v e. h < key N \<longrightarrow>
      search_node h N s = search_node h (left N) s \<and>
      insert_node h s v N e =
        (if left N \<noteq> Null
         then (case insert_node h s v (left N) e of
                 (l', e') \<Rightarrow> (Node (address N) (key N) (keystr N) (valstr N) l' (right N), e'))
         else (case new_node h s v e of
                 (p, e') \<Rightarrow> (Node (address N) (key N) (keystr N) (valstr N) p (right N), e'))) \<and>
      deleteNode N h s e =
        (case deleteNode (left N) h s e of
           (l', e') \<Rightarrow> (Node (address N) (key N) (keystr N) (valstr N) l' (right N), e')))"
proof -
  assume mem: "N \<in> set (nodes (iRoot (run ops (Dictionary n))))"
  have "dict_inv (run ops (Dictionary n))" by (rule run_inv [OF dict_inv_Dictionary])
  then have b: "bst (iRoot (run ops (Dictionary n)))" by (simp add: dict_inv_def)
  have 1: "\<forall>m \<in> set (nodes (left N)). key m \<le> key N"
    using left_subtree_strict [OF b mem] by (simp add: less_imp_le)
  from bst_nodes [OF b mem] obtain a k ks vs l r where N: "N = Node a k ks vs l r"
    by (cases N) auto
  have 2: "search_node h N s = search_node h (left N) s" if "h < key N" for h s
    using that N by auto
  have 3: "insert_node h s v N e =
        (if left N \<noteq> Null
         then (case insert_node h s v (left N) e of
                 (l', e') \<Rightarrow> (Node (address N) (key N) (keystr N) (valstr N) l' (right N), e'))
         else (case new_node h s v e of
                 (p, e') \<Rightarrow> (Node (address N) (key N) (keystr N) (valstr N) p (right N), e')))"
    if "h < key N" for h s v e
    using that N by simp
  have 4: "deleteNode N h s e =
        (case deleteNode (left N) h s e of
           (l', e') \<Rightarrow> (Node (address N) (key N) (keystr N) (valstr N) l' (right N), e'))"
    if "h < key N" for h s e
    using that N by simp
  from 1 2 3 4 show ?thesis by blast
qed

theorem left_subtree_order_and_routing_witness:
  "Node 0 (crc ''b'') ''b'' ''2'' (Node 1 (crc ''c'') ''c'' ''3'' Null Null) Null
     \<in> set (nodes (iRoot (run [Insert ''b'' ''2'', Insert ''c'' ''3''] (Dictionary 10)))) \<and>
   Node 1 (crc ''c'') ''c'' ''3'' Null Null
     \<in> set (nodes (left (Node 0 (crc ''b'') ''b'' ''2'' (Node 1 (crc ''c'') ''c'' ''3'' Null Null) Null))) \<and>
   crc ''c'' \<le> crc ''b'' \<and>
   crc ''c'' < crc ''b'' \<and>
   search_node (crc ''c'') (Node 0 (crc ''b'') ''b'' ''2'' (Node 1 (crc ''c'') ''c'' ''3'' Null Null) Null) ''c''
     = Node 1 (crc ''c'') ''c'' ''3'' Null Null"
proof -
  let ?N = "Node 0 (crc ''b'') ''b'' ''2'' (Node 1 (crc ''c'') ''c'' ''3'' Null Null) Null"
  let ?m = "Node 1 (crc ''c'') ''c'' ''3'' Null Null"
  have h1: "?N \<in> set (nodes (iRoot (run [Insert ''b'' ''2'', Insert ''c'' ''3''] (Dictionary 10))))"
    by (simp add: dict_eval)
  have h2: "?m \<in> set (nodes (left ?N))" by simp
  have h3: "crc ''c'' < key ?N" by (simp add: crc_b crc_c)
  from left_subtree_order_and_routing [OF h1] h2 h3
  have "key ?m \<le> key ?N" and "search_node (crc ''c'') ?N ''c'' = search_node (crc ''c'') (left ?N) ''c''"
    by blast+
  with h1 h2 h3 show ?thesis by simp
qed

section \<open>Frame of the observers\<close>

text \<open>
  C10. A call of an observer (\<open>search\<close>, \<open>operator()\<close>, \<open>key\<close>, \<open>value\<close>, \<open>count\<close>,
  \<open>size\<close>, \<open>operator==\<close>) returns the object state it was called in: root, nodes,
  index array and allocator are as before; \<open>operator==\<close> leaves both objects as they
  were.
\<close>

theorem observers_leave_state:
  "snd (search_call d k) = d \<and>
   snd (contains_call d k) = d \<and>
   snd (key_call d i) = d \<and>
   snd (value_call d i) = d \<and>
   snd (count_call d) = d \<and>
   snd (size_call d) = d \<and>
   snd (equals_call d b) = (d, b)"
  by (simp add: search_call_eq contains_call_eq key_call_eq value_call_eq count_call_def
      size_call_frame equals_call_frame)

section \<open>The size\<close>

text \<open>
  C9. In every state reached from a new container by \<open>insert\<close> and \<open>remove\<close> calls,
  \<open>size()\<close> is the sum, over the nodes of the tree, of the length of the key string plus
  the length of the value string plus 2; this is also the sum over the stored pairs.
\<close>

theorem size_is_sum_over_entries:
  "size_dict (run ops (Dictionary n)) =
     Some (\<Sum>c\<leftarrow>contents (iRoot (run ops (Dictionary n))).
             length (c_keystr c) + length (c_valstr c) + 2) \<and>
   size_dict (run ops (Dictionary n)) =
     Some (\<Sum>e\<in>entries (run ops (Dictionary n)). length (fst e) + length (snd e) + 2)"
proof -
  have "dict_inv (run ops (Dictionary n))" by (rule run_inv [OF dict_inv_Dictionary])
  from size_dict_contents [OF this] size_dict_entries [OF this] show ?thesis by simp
qed

section \<open>Equality of containers\<close>

text \<open>
  C6, in the form that holds. For containers reached from a new container by \<open>insert\<close> and \<open>remove\<close>
  calls: \<open>a == a\<close> holds; two new containers that receive the same pairs, no two pairs
  with the same key, in any two orders compare equal; and \<open>a == b\<close> implies \<open>b == a\<close>
  when no value stored in \<open>a\<close> is the empty string.
\<close>

theorem equals_reflexive_and_order_insensitive:
  "equals (run xs (Dictionary n)) (run xs (Dictionary n)) = Some True \<and>
   (set ps = set qs \<and> inj_on fst (set ps) \<longrightarrow>
      equals (run (map (\<lambda>(k, v). Insert k v) ps) (Dictionary n))
             (run (map (\<lambda>(k, v). Insert k v) qs) (Dictionary m)) = Some True) \<and>
   (equals (run xs (Dictionary n)) (run ys (Dictionary m)) = Some True \<and>
    (\<forall>i<count_dict (run xs (Dictionary n)). value_i (run xs (Dictionary n)) i \<noteq> Some '''') \<longrightarrow>
      equals (run ys (Dictionary m)) (run xs (Dictionary n)) = Some True)"
proof -
  let ?a = "run xs (Dictionary n)" and ?b = "run ys (Dictionary m)"
  have inva: "dict_inv ?a" and invb: "dict_inv ?b"
    by (rule run_inv [OF dict_inv_Dictionary])+
  have 1: "equals ?a ?a = Some True" by (rule equals_same_entries [OF inva inva refl])
  have 2: "equals (run (map (\<lambda>(k, v). Insert k v) ps) (Dictionary n))
             (run (map (\<lambda>(k, v). Insert k v) qs) (Dictionary m)) = Some True"
    if "set ps = set qs" "inj_on fst (set ps)"
  proof -
    from that have "inj_on fst (set qs)" by simp
    from entries_inserts [OF that(2), of n] entries_inserts [OF this, of m] that(1)
    show ?thesis by (intro equals_same_entries) simp_all
  qed
  have 3: "equals ?b ?a = Some True"
    if "equals ?a ?b = Some True" "\<forall>i<count_dict ?a. value_i ?a i \<noteq> Some ''''"
    using equals_symmetric_nonempty [OF inva invb that] .
  from 1 2 3 show ?thesis by blast
qed

theorem equals_reflexive_and_order_insensitive_witness:
  "set [(''a'', ''1''), (''b'', ''2'')] = set [(''b'', ''2''), (''a'', ''1'')] \<and>
   inj_on fst (set [(''a'', ''1''), (''b'', ''2'')]) \<and>
   equals (run [Insert ''a'' ''1'', Insert ''b'' ''2''] (Dictionary 10))
          (run [Insert ''b'' ''2'', Insert ''a'' ''1''] (Dictionary 10)) = Some True \<and>
   count_dict (run [Insert ''a'' ''1'', Insert ''b'' ''2''] (Dictionary 10)) = 2 \<and>
   value_i (run [Insert ''a'' ''1'', Insert ''b'' ''2''] (Dictionary 10)) 0 = Some ''1'' \<and>
   value_i (run [Insert ''a'' ''1'', Insert ''b'' ''2''] (Dictionary 10)) 1 = Some ''2'' \<and>
   equals (run [Insert ''b'' ''2'', Insert ''a'' ''1''] (Dictionary 10))
          (run [Insert ''a'' ''1'', Insert ''b'' ''2''] (Dictionary 10)) = Some True"
proof -
  let ?ps = "[(''a'', ''1''), (''b'', ''2'')]" and ?qs = "[(''b'', ''2''), (''a'', ''1'')]"
  let ?a = "run [Insert ''a'' ''1'', Insert ''b'' ''2''] (Dictionary 10)"
  let ?b = "run [Insert ''b'' ''2'', Insert ''a'' ''1''] (Dictionary 10)"
  have h1: "set ?ps = set ?qs" by auto
  have h2: "inj_on fst (set ?ps)" by simp
  have c: "count_dict ?a = 2" "value_i ?a 0 = Some ''1''" "value_i ?a 1 = Some ''2''"
    by (simp_all add: dict_eval)
  then have h3: "\<forall>i<count_dict ?a. value_i ?a i \<noteq> Some ''''"
    by (simp add: less_Suc_eq numeral_2_eq_2)
  note t = equals_reflexive_and_order_insensitive
    [of "[Insert ''a'' ''1'', Insert ''b'' ''2'']" 10 ?ps ?qs 10 "[Insert ''b'' ''2'', Insert ''a'' ''1'']"]
  from t h1 h2 have ab: "equals ?a ?b = Some True" by (simp add: run_def)
  with t h3 have "equals ?b ?a = Some True" by blast
  with h1 h2 ab c show ?thesis by blast
qed

text \<open>
  C6, the symmetry that fails: with an empty value stored in \<open>a\<close> under a key that \<open>b\<close> lacks,
  \<open>a == b\<close> holds and \<open>b == a\<close> does not.
\<close>

theorem equals_not_symmetric:
  "equals (run [Insert ''xx'' '''', Insert ''p'' ''1''] (Dictionary 10))
          (run [Insert ''p'' ''1'', Insert ''y'' ''q''] (Dictionary 10)) = Some True \<and>
   equals (run [Insert ''p'' ''1'', Insert ''y'' ''q''] (Dictionary 10))
          (run [Insert ''xx'' '''', Insert ''p'' ''1''] (Dictionary 10)) = Some False"
  by (simp add: dict_eval)

section \<open>Colliding keys\<close>

text \<open>
  C5. Let \<open>k1\<close> and \<open>k2\<close> be different key strings with the same hash key. After any
  history \<open>xs\<close> of \<open>insert\<close> and \<open>remove\<close> calls on a new container, insert both keys,
  in either order, with inserts of other keys (\<open>ys\<close>, \<open>zs\<close>) in between and afterwards.
  Then each key is stored with its own value; removing either one leaves the other
  stored with its value; and the other can then be removed too.
\<close>

theorem colliding_keys_are_independent:
  assumes "k1 \<noteq> k2" and "crc k1 = crc k2"
    and "\<forall>x\<in>set ys. \<exists>k v. x = Insert k v \<and> k \<noteq> k1 \<and> k \<noteq> k2"
    and "\<forall>x\<in>set zs. \<exists>k v. x = Insert k v \<and> k \<noteq> k1 \<and> k \<noteq> k2"
    and "S = run (xs @ [Insert k1 v1] @ ys @ [Insert k2 v2] @ zs) (Dictionary n) \<or>
         S = run (xs @ [Insert k2 v2] @ ys @ [Insert k1 v1] @ zs) (Dictionary n)"
  shows "search_dict S k1 = v1 \<and> contains S k1 \<and> search_dict S k2 = v2 \<and> contains S k2 \<and>
    search_dict (remove_dict S k1) k2 = v2 \<and> contains (remove_dict S k1) k2 \<and>
    \<not> contains (remove_dict S k1) k1 \<and>
    search_dict (remove_dict S k2) k1 = v1 \<and> contains (remove_dict S k2) k1 \<and>
    \<not> contains (remove_dict S k2) k2 \<and>
    \<not> contains (remove_dict (remove_dict S k1) k2) k2 \<and>
    \<not> contains (remove_dict (remove_dict S k2) k1) k1"
proof -
  from assms(5) show ?thesis
  proof
    assume "S = run (xs @ [Insert k1 v1] @ ys @ [Insert k2 v2] @ zs) (Dictionary n)"
    from two_keys [OF assms(1,3,4) this] show ?thesis .
  next
    assume S: "S = run (xs @ [Insert k2 v2] @ ys @ [Insert k1 v1] @ zs) (Dictionary n)"
    from assms(1) have ne: "k2 \<noteq> k1" by simp
    from assms(3) have ys: "\<forall>x\<in>set ys. \<exists>k v. x = Insert k v \<and> k \<noteq> k2 \<and> k \<noteq> k1" by blast
    from assms(4) have zs: "\<forall>x\<in>set zs. \<exists>k v. x = Insert k v \<and> k \<noteq> k2 \<and> k \<noteq> k1" by blast
    from two_keys [OF ne ys zs S] show ?thesis by simp
  qed
qed

theorem colliding_keys_are_independent_witness:
  "''xqavwsv'' \<noteq> ''klcogqy'' \<and> crc ''xqavwsv'' = crc ''klcogqy'' \<and>
   search_dict (run [Insert ''xqavwsv'' ''1'', Insert ''a'' ''0'', Insert ''klcogqy'' ''2'']
     (Dictionary 10)) ''xqavwsv'' = ''1'' \<and>
   search_dict (run [Insert ''xqavwsv'' ''1'', Insert ''a'' ''0'', Insert ''klcogqy'' ''2'']
     (Dictionary 10)) ''klcogqy'' = ''2'' \<and>
   search_dict (remove_dict (run [Insert ''xqavwsv'' ''1'', Insert ''a'' ''0'', Insert ''klcogqy'' ''2'']
     (Dictionary 10)) ''xqavwsv'') ''klcogqy'' = ''2'' \<and>
   search_dict (remove_dict (run [Insert ''xqavwsv'' ''1'', Insert ''a'' ''0'', Insert ''klcogqy'' ''2'']
     (Dictionary 10)) ''klcogqy'') ''xqavwsv'' = ''1''"
proof -
  let ?S = "run [Insert ''xqavwsv'' ''1'', Insert ''a'' ''0'', Insert ''klcogqy'' ''2''] (Dictionary 10)"
  have h1: "''xqavwsv'' \<noteq> ''klcogqy''" by simp
  have h2: "crc ''xqavwsv'' = crc ''klcogqy''" by (simp add: crc_collision1 crc_collision2)
  have h3: "\<forall>x\<in>set [Insert ''a'' ''0'']. \<exists>k v. x = Insert k v \<and> k \<noteq> ''xqavwsv'' \<and> k \<noteq> ''klcogqy''"
    by simp
  have h4: "\<forall>x\<in>set []. \<exists>k v. x = Insert k v \<and> k \<noteq> ''xqavwsv'' \<and> k \<noteq> ''klcogqy''"
    by simp
  have h5: "?S = run ([] @ [Insert ''xqavwsv'' ''1''] @ [Insert ''a'' ''0''] @ [Insert ''klcogqy'' ''2''] @ [])
      (Dictionary 10) \<or>
    ?S = run ([] @ [Insert ''klcogqy'' ''2''] @ [Insert ''a'' ''0''] @ [Insert ''xqavwsv'' ''1''] @ [])
      (Dictionary 10)"
    by simp
  from colliding_keys_are_independent [OF h1 h2 h3 h4 h5] h1 h2 show ?thesis by simp
qed

end
